theory Spec2Isabelle
  imports Main "HOL-Library.Sublist"
begin

section \<open>Python values\<close>

text \<open>
  A Python \<open>str\<close> is a sequence of Unicode code points; a character is a \<open>str\<close> of
  length one. \<open>lit\<close> reads an ASCII literal of the source.
\<close>

type_synonym py_str = "nat list"

definition lit :: "string \<Rightarrow> py_str" where
  "lit s = map of_char s"

text \<open>
  Every \<open>raise\<close> of the source and every failing builtin is one constructor. The source
  raises \<open>ValueError\<close> at most sites; the constructors keep the sites apart.
  \<open>NonTermination\<close> is not an exception: it marks a loop that does not return.
\<close>

datatype error =
    InvalidInput py_str        \<comment> \<open>\<open>ValueError("Expected char not str! Got ...")\<close>\<close>
  | OutOfRange int             \<comment> \<open>\<open>ValueError("number must be between 0 and 255, got ...")\<close>\<close>
  | BaseTooSmall int           \<comment> \<open>\<open>ValueError("base musst be >= 2, got ...")\<close>\<close>
  | TooFewDigits int           \<comment> \<open>\<open>ValueError("len(digits) musst be >= base, got ...")\<close>\<close>
  | InvalidDigit               \<comment> \<open>\<open>str.index\<close>: \<open>ValueError("substring not found")\<close>\<close>
  | KeyNotFound                \<comment> \<open>\<open>KeyError\<close> of a dictionary lookup\<close>
  | BuildError                 \<comment> \<open>\<open>RuntimeError("Can't build TranslatorChain without translators!")\<close>\<close>
  | NotFound                   \<comment> \<open>\<open>ValueError("No message found!")\<close>\<close>
  | MalformedStart py_str      \<comment> \<open>\<open>ValueError("Message doesn't start with ...")\<close>\<close>
  | MalformedEnd py_str        \<comment> \<open>\<open>ValueError("Message doesn't end with ...")\<close>\<close>
  | IndexError                 \<comment> \<open>index out of range\<close>
  | ZeroDivisionError          \<comment> \<open>\<open>%\<close> or \<open>//\<close> by zero\<close>
  | EmptySeparator             \<comment> \<open>\<open>str.split\<close>: \<open>ValueError("empty separator")\<close>\<close>
  | ChrRange int               \<comment> \<open>\<open>chr\<close>: \<open>ValueError("chr() arg not in range(0x110000)")\<close>\<close>
  | ArityError                 \<comment> \<open>\<open>TypeError\<close>: a call with the wrong number of arguments\<close>
  | PatternNotLiteral          \<comment> \<open>not a Python error: a marker outside the modelled patterns\<close>
  | NonTermination

subsection \<open>Indexing, slicing, searching\<close>

definition getitem :: "'a list \<Rightarrow> int \<Rightarrow> error + 'a" where
  \<comment> \<open>\<open>xs[i]\<close>; the indices \<open>-len(xs)\<close> to \<open>-1\<close> count from the end\<close>
  "getitem xs i =
     (if 0 \<le> i \<and> i < int (length xs) then Inr (xs ! nat i)
      else if - int (length xs) \<le> i \<and> i < 0 then Inr (xs ! nat (int (length xs) + i))
      else Inl IndexError)"

definition str_getitem :: "py_str \<Rightarrow> int \<Rightarrow> error + py_str" where
  \<comment> \<open>\<open>s[i]\<close> on a \<open>str\<close> is a \<open>str\<close> of length one\<close>
  "str_getitem s i = (case getitem s i of Inl e \<Rightarrow> Inl e | Inr c \<Rightarrow> Inr [c])"

definition clamp_index :: "nat \<Rightarrow> int \<Rightarrow> nat" where
  "clamp_index n i = (if i < 0 then nat (max 0 (int n + i)) else min n (nat i))"

definition slice :: "int option \<Rightarrow> int option \<Rightarrow> 'a list \<Rightarrow> 'a list" where
  \<comment> \<open>\<open>xs[a:b]\<close>; \<open>None\<close> is an omitted bound\<close>
  "slice a b xs =
     (let n = length xs;
          lo = (case a of None \<Rightarrow> 0 | Some i \<Rightarrow> clamp_index n i);
          hi = (case b of None \<Rightarrow> n | Some j \<Rightarrow> clamp_index n j)
      in drop lo (take hi xs))"

fun str_find :: "'a list \<Rightarrow> 'a list \<Rightarrow> nat option" where
  \<comment> \<open>\<open>s.find(sub)\<close>: the least position where \<open>sub\<close> occurs in \<open>s\<close>\<close>
  "str_find sub [] = (if sub = [] then Some 0 else None)"
| "str_find sub (c # cs) =
     (if prefix sub (c # cs) then Some 0
      else (case str_find sub cs of None \<Rightarrow> None | Some i \<Rightarrow> Some (Suc i)))"

definition str_index :: "py_str \<Rightarrow> py_str \<Rightarrow> error + int" where
  \<comment> \<open>\<open>s.index(sub)\<close>\<close>
  "str_index s sub = (case str_find sub s of None \<Rightarrow> Inl InvalidDigit | Some i \<Rightarrow> Inr (int i))"

definition chr :: "int \<Rightarrow> error + py_str" where
  "chr i = (if 0 \<le> i \<and> i < 0x110000 then Inr [nat i] else Inl (ChrRange i))"

definition ord :: "py_str \<Rightarrow> int" where
  \<comment> \<open>called on strings of length one only\<close>
  "ord c = int (hd c)"

section \<open>The translator contract\<close>

text \<open>
  \<open>TranslatorInterface\<close>: an object with \<open>encode\<close> and \<open>decode\<close>. Python does not
  tie the type \<open>decode\<close> returns to the type \<open>encode\<close> takes (a lifted translator
  takes a \<open>str\<close> and gives back a generator), so the record has four type parameters.
\<close>

record ('a, 'b, 'c, 'd) translator =
  encode :: "'a \<Rightarrow> error + 'b"
  decode :: "'c \<Rightarrow> error + 'd"

section \<open>UnicodeCharacterTranslator\<close>

definition UnicodeCharacterTranslator :: "(py_str, int, int, py_str) translator" where
  "UnicodeCharacterTranslator =
     \<lparr> encode = (\<lambda>char. if length char \<noteq> 1 then Inl (InvalidInput char) else Inr (ord char)),
       decode = (\<lambda>number. if \<not> (0 \<le> number \<and> number \<le> 255) then Inl (OutOfRange number)
                          else chr number) \<rparr>"

section \<open>Base10ToBaseNTranslator\<close>

record base_n =
  base :: int
  digits :: py_str
  padding :: int

definition Base10ToBaseNTranslator_init :: "int \<Rightarrow> py_str \<Rightarrow> int \<Rightarrow> error + base_n" where
  "Base10ToBaseNTranslator_init b ds p =
     (if b < 2 then Inl (BaseTooSmall b)
      else if int (length ds) < b then Inl (TooFewDigits (int (length ds)))
      else Inr \<lparr> base = b, digits = ds, padding = p \<rparr>)"

text \<open>
  \<open>while decimal: digit = self.digits[decimal % self.base]; digits.append(digit);
  decimal //= self.base\<close>. The loop need not end for a base below 2, so it is a partial
  function: \<open>None\<close> is a run that does not return.
\<close>

partial_function (option) encode_loop ::
    "base_n \<Rightarrow> int \<Rightarrow> py_str list \<Rightarrow> (error + py_str list) option" where
  "encode_loop self decimal ds =
     (if decimal \<noteq> 0 then
        (if base self = 0 then Some (Inl ZeroDivisionError)
         else (case str_getitem (digits self) (decimal mod base self) of
                 Inl e \<Rightarrow> Some (Inl e)
               | Inr digit \<Rightarrow> encode_loop self (decimal div base self) (ds @ [digit])))
      else Some (Inr ds))"

declare encode_loop.simps [code]

text \<open>\<open>while len(digits) < self.padding: digits.append(self.digits[0])\<close>\<close>

function pad_loop :: "base_n \<Rightarrow> py_str list \<Rightarrow> error + py_str list" where
  "pad_loop self ds =
     (if int (length ds) < padding self then
        (case str_getitem (digits self) 0 of
           Inl e \<Rightarrow> Inl e
         | Inr z \<Rightarrow> pad_loop self (ds @ [z]))
      else Inr ds)"
  by pat_completeness auto
termination
  by (relation "measure (\<lambda>(self, ds). nat (padding self - int (length ds)))") auto

declare pad_loop.simps [simp del]

definition base_n_encode :: "base_n \<Rightarrow> int \<Rightarrow> error + py_str" where
  "base_n_encode self decimal =
     (if decimal = 0 then Inr (lit ''0'')
      else
        let neg = (decimal < 0);
            decimal1 = (if neg then decimal * (- 1) else decimal)
        in (case encode_loop self decimal1 [] of
              None \<Rightarrow> Inl NonTermination
            | Some (Inl e) \<Rightarrow> Inl e
            | Some (Inr ds) \<Rightarrow>
                (case pad_loop self (if neg then ds @ [lit ''-''] else ds) of
                   Inl e \<Rightarrow> Inl e
                 | Inr ds2 \<Rightarrow> Inr (concat (rev ds2)))))"

text \<open>
  \<open>for (i, digit) in enumerate(num[::-1]): idx = self.digits.index(digit);
  decimal += idx * self.base ** i\<close>, over the reversed numeral.
\<close>

fun decode_loop :: "base_n \<Rightarrow> py_str \<Rightarrow> nat \<Rightarrow> int \<Rightarrow> error + int" where
  "decode_loop self [] i decimal = Inr decimal"
| "decode_loop self (digit # rest) i decimal =
     (case str_index (digits self) [digit] of
        Inl e \<Rightarrow> Inl e
      | Inr idx \<Rightarrow> decode_loop self rest (Suc i) (decimal + idx * base self ^ i))"

definition base_n_decode :: "base_n \<Rightarrow> py_str \<Rightarrow> error + int" where
  "base_n_decode self num =
     (case str_getitem num 0 of
        Inl e \<Rightarrow> Inl e
      | Inr c \<Rightarrow>
          let neg = (c = lit ''-'');
              num1 = (if neg then slice (Some 1) None num else num)
          in (case decode_loop self (rev num1) 0 0 of
                Inl e \<Rightarrow> Inl e
              | Inr decimal \<Rightarrow> Inr (if neg then decimal * (- 1) else decimal)))"

definition Base10ToBaseNTranslator :: "base_n \<Rightarrow> (int, py_str, py_str, int) translator" where
  "Base10ToBaseNTranslator self =
     \<lparr> encode = base_n_encode self, decode = base_n_decode self \<rparr>"

section \<open>Iterables and generators\<close>

text \<open>
  A generator expression computes nothing until it is consumed, and an exception in
  the middle ends it. Its value is the list of items it yields before it stops and the
  exception that stops it, if any. Pulling one item of a chain of generators runs all
  stages for that item, so the first failing item wins whatever stage fails.
\<close>

type_synonym 'a gen = "'a list \<times> error option"

definition iter_str :: "py_str \<Rightarrow> py_str gen" where
  \<comment> \<open>\<open>for item in s\<close>, \<open>s\<close> a \<open>str\<close>: its characters\<close>
  "iter_str s = (map (\<lambda>c. [c]) s, None)"

definition iter_list :: "'a list \<Rightarrow> 'a gen" where
  "iter_list xs = (xs, None)"

definition iter_gen :: "'a gen \<Rightarrow> 'a gen" where
  "iter_gen g = g"

fun genexp :: "('a \<Rightarrow> error + 'b) \<Rightarrow> 'a list \<Rightarrow> error option \<Rightarrow> 'b gen" where
  \<comment> \<open>\<open>(f(item) for item in l)\<close>\<close>
  "genexp f [] e = ([], e)"
| "genexp f (x # xs) e =
     (case f x of
        Inl err \<Rightarrow> ([], Some err)
      | Inr y \<Rightarrow> (case genexp f xs e of (ys, e') \<Rightarrow> (y # ys, e')))"

fun join :: "'a list \<Rightarrow> 'a list list \<Rightarrow> 'a list" where
  "join sep [] = []"
| "join sep [x] = x"
| "join sep (x # y # ys) = x @ sep @ join sep (y # ys)"

definition str_join :: "py_str \<Rightarrow> py_str gen \<Rightarrow> error + py_str" where
  \<comment> \<open>\<open>sep.join(iterable)\<close> consumes the iterable first\<close>
  "str_join sep g = (case snd g of Some e \<Rightarrow> Inl e | None \<Rightarrow> Inr (join sep (fst g)))"

function split_scan :: "py_str \<Rightarrow> py_str \<Rightarrow> py_str \<Rightarrow> py_str list" where
  \<comment> \<open>cut at each occurrence of \<open>sep\<close>, leftmost first, occurrences not overlapping\<close>
  "split_scan sep cur [] = [cur]"
| "split_scan sep cur (c # cs) =
     (if sep \<noteq> [] \<and> prefix sep (c # cs)
      then cur # split_scan sep [] (drop (length sep) (c # cs))
      else split_scan sep (cur @ [c]) cs)"
  by pat_completeness auto
termination
  by (relation "measure (\<lambda>(sep, cur, s). length s)") auto

definition split :: "py_str \<Rightarrow> py_str \<Rightarrow> error + py_str list" where
  \<comment> \<open>\<open>x.split(sep)\<close>\<close>
  "split sep x = (if sep = [] then Inl EmptySeparator else Inr (split_scan sep [] x))"

definition list_of_str :: "py_str \<Rightarrow> error + py_str list" where
  \<comment> \<open>\<open>list(s)\<close>\<close>
  "list_of_str s = Inr (map (\<lambda>c. [c]) s)"

definition str_of_str :: "py_str \<Rightarrow> error + py_str" where
  \<comment> \<open>\<open>str(s)\<close>\<close>
  "str_of_str s = Inr s"

section \<open>Structural combinators\<close>

definition InvertedTranslator :: "('a, 'b, 'c, 'd) translator \<Rightarrow> ('c, 'd, 'a, 'b) translator" where
  "InvertedTranslator t = \<lparr> encode = decode t, decode = encode t \<rparr>"

text \<open>
  \<open>IterableTranslator\<close>: \<open>for item in l\<close> works on any iterable; \<open>itE\<close> and \<open>itD\<close>
  are the iteration of the type that \<open>encode\<close> and \<open>decode\<close> receive.
\<close>

definition IterableTranslator ::
    "('x \<Rightarrow> 'a gen) \<Rightarrow> ('y \<Rightarrow> 'c gen) \<Rightarrow> ('a, 'b, 'c, 'd) translator
     \<Rightarrow> ('x, 'b gen, 'y, 'd gen) translator" where
  "IterableTranslator itE itD itemTranslator =
     \<lparr> encode = (\<lambda>l. Inr (genexp (encode itemTranslator) (fst (itE l)) (snd (itE l)))),
       decode = (\<lambda>l. Inr (genexp (decode itemTranslator) (fst (itD l)) (snd (itD l)))) \<rparr>"

subsection \<open>StringReplacementTranslator\<close>

text \<open>A \<open>dict\<close> keeps its keys in insertion order; storing under a present key
  replaces the value in place.\<close>

type_synonym ('k, 'v) dict = "('k \<times> 'v) list"

fun dict_set :: "('k, 'v) dict \<Rightarrow> 'k \<Rightarrow> 'v \<Rightarrow> ('k, 'v) dict" where
  "dict_set [] k v = [(k, v)]"
| "dict_set ((k', v') # d) k v = (if k' = k then (k, v) # d else (k', v') # dict_set d k v)"

definition dict_of_items :: "('k \<times> 'v) list \<Rightarrow> ('k, 'v) dict" where
  \<comment> \<open>\<open>{k: v for (k, v) in items}\<close>\<close>
  "dict_of_items items = foldl (\<lambda>d (k, v). dict_set d k v) [] items"

definition dict_get :: "('k, 'v) dict \<Rightarrow> 'k \<Rightarrow> error + 'v" where
  "dict_get d k = (case map_of d k of None \<Rightarrow> Inl KeyNotFound | Some v \<Rightarrow> Inr v)"

record ('k, 'v) replacement =
  charset :: "('k, 'v) dict"
  charset_inv :: "('v, 'k) dict"

definition StringReplacementTranslator_init :: "('k, 'v) dict \<Rightarrow> ('k, 'v) replacement" where
  "StringReplacementTranslator_init cs =
     \<lparr> charset = cs, charset_inv = dict_of_items (map (\<lambda>(k, v). (v, k)) cs) \<rparr>"

definition StringReplacementTranslator ::
    "('k, 'v) replacement \<Rightarrow> ('k, 'v, 'v, 'k) translator" where
  "StringReplacementTranslator self =
     \<lparr> encode = dict_get (charset self), decode = dict_get (charset_inv self) \<rparr>"

subsection \<open>FunctionTranslator and ChainedTranslator\<close>

definition FunctionTranslator ::
    "('a \<Rightarrow> error + 'b) \<Rightarrow> ('c \<Rightarrow> error + 'd) \<Rightarrow> ('a, 'b, 'c, 'd) translator" where
  "FunctionTranslator f f_inv = \<lparr> encode = f, decode = f_inv \<rparr>"

definition ChainedTranslator ::
    "('a, 'b, 'c, 'd) translator \<Rightarrow> ('b, 'e, 'f, 'c) translator \<Rightarrow> ('a, 'e, 'f, 'd) translator" where
  "ChainedTranslator t1 t2 =
     \<lparr> encode = (\<lambda>obj. case encode t1 obj of Inl e \<Rightarrow> Inl e | Inr tmp \<Rightarrow> encode t2 tmp),
       decode = (\<lambda>obj. case decode t2 obj of Inl e \<Rightarrow> Inl e | Inr tmp \<Rightarrow> decode t1 tmp) \<rparr>"

section \<open>ChainTranslatorBuilder\<close>

text \<open>The builder's state is its list \<open>translators\<close>. A list of HOL has one element
  type, so here every stage works on one value type \<open>'v\<close>.\<close>

type_synonym 'v stage = "('v, 'v, 'v, 'v) translator"

definition ChainTranslatorBuilder_init :: "'v stage list" where
  "ChainTranslatorBuilder_init = []"

definition add :: "'v stage list \<Rightarrow> 'v stage \<Rightarrow> 'v stage list" where
  "add translators t = translators @ [t]"

definition addAll :: "'v stage list \<Rightarrow> 'v stage list \<Rightarrow> 'v stage list" where
  "addAll translators ts = translators @ ts"

definition ChainTranslatorBuilder_build :: "'v stage list \<Rightarrow> error + 'v stage" where
  "ChainTranslatorBuilder_build translators =
     (if length translators = 0 then Inl BuildError
      else if length translators = 1 then getitem translators 0
      else (case slice None (Some 2) translators of
              [t1, t2] \<Rightarrow>
                Inr (foldl ChainedTranslator (ChainedTranslator t1 t2)
                       (slice (Some 2) None translators))
            | _ \<Rightarrow> Inl ArityError))"

section \<open>EmbeddedMessageTranslator\<close>

text \<open>
  The constructor compiles \<open>f"{start_seq}.*{end_seq}"\<close> as a regular expression, the
  markers being pasted in unescaped. A marker without metacharacter stands for itself,
  and the pattern then reads: the start marker, any run of characters other than the
  line feed (there is no \<open>DOTALL\<close> flag), the end marker. Only these patterns are
  modelled; for other markers the constructor of the model returns \<open>PatternNotLiteral\<close>.
\<close>

definition metachars :: "nat set" where
  "metachars = set (lit ''.^$*+?{}[]|()'') \<union> {0x5C}"

definition re_literal :: "py_str \<Rightarrow> bool" where
  "re_literal s = (set s \<inter> metachars = {})"

definition dot_matches :: "nat \<Rightarrow> bool" where
  \<comment> \<open>\<open>.\<close> matches every character but the line feed\<close>
  "dot_matches c = (c \<noteq> 10)"

fun backtrack :: "py_str \<Rightarrow> py_str \<Rightarrow> nat \<Rightarrow> nat option" where
  \<comment> \<open>\<open>.*\<close> is greedy: it has taken \<open>k\<close> characters and gives them back one at a time
      until the end marker follows\<close>
  "backtrack e rest 0 = (if prefix e rest then Some 0 else None)"
| "backtrack e rest (Suc k) =
     (if prefix e (drop (Suc k) rest) then Some (Suc k) else backtrack e rest k)"

definition match_here :: "py_str \<Rightarrow> py_str \<Rightarrow> py_str \<Rightarrow> py_str option" where
  \<comment> \<open>the match of the pattern that starts at the head of \<open>text\<close>\<close>
  "match_here s e text =
     (if prefix s text then
        (let rest = drop (length s) text
         in case backtrack e rest (length (takeWhile dot_matches rest)) of
              None \<Rightarrow> None
            | Some k \<Rightarrow> Some (s @ take k rest @ e))
      else None)"

fun first_match :: "py_str \<Rightarrow> py_str \<Rightarrow> py_str \<Rightarrow> py_str option" where
  \<comment> \<open>the first item of \<open>pattern.finditer(text)\<close>: the match at the leftmost position\<close>
  "first_match s e [] = match_here s e []"
| "first_match s e (c # cs) =
     (case match_here s e (c # cs) of
        Some m \<Rightarrow> Some m
      | None \<Rightarrow> first_match s e cs)"

record embedded =
  start_seq :: py_str
  end_seq :: py_str

definition EmbeddedMessageTranslator_init :: "py_str \<Rightarrow> py_str \<Rightarrow> error + embedded" where
  "EmbeddedMessageTranslator_init s e =
     (if re_literal s \<and> re_literal e then Inr \<lparr> start_seq = s, end_seq = e \<rparr>
      else Inl PatternNotLiteral)"

definition embedded_encode :: "embedded \<Rightarrow> py_str \<Rightarrow> error + py_str" where
  "embedded_encode self rawMsg = Inr (start_seq self @ rawMsg @ end_seq self)"

definition decodeCandidate :: "embedded \<Rightarrow> py_str \<Rightarrow> error + py_str" where
  "decodeCandidate self embeddedMsg =
     (if \<not> prefix (start_seq self) embeddedMsg
        then Inl (MalformedStart (slice None (Some 10) embeddedMsg))
      else if \<not> suffix (end_seq self) embeddedMsg
        then Inl (MalformedEnd (slice (Some (- 10)) None embeddedMsg))
      else
        let left_offset = int (length (start_seq self));
            right_offset = int (length (end_seq self));
            msgLen = int (length embeddedMsg)
        in Inr (slice (Some left_offset) (Some (msgLen - right_offset)) embeddedMsg))"

definition embedded_decode :: "embedded \<Rightarrow> py_str \<Rightarrow> error + py_str" where
  "embedded_decode self text =
     (case first_match (start_seq self) (end_seq self) text of
        Some candidate \<Rightarrow> decodeCandidate self candidate
      | None \<Rightarrow> Inl NotFound)"

definition EmbeddedMessageTranslator :: "embedded \<Rightarrow> (py_str, py_str, py_str, py_str) translator" where
  "EmbeddedMessageTranslator self =
     \<lparr> encode = embedded_encode self, decode = embedded_decode self \<rparr>"

section \<open>CharsetTranslatorBuilder\<close>

record charset_builder =
  cb_charset :: py_str
  cb_separator :: py_str
  cb_start_seq :: py_str
  cb_end_seq :: py_str

definition ascii_digits :: py_str where
  \<comment> \<open>\<open>string.digits\<close>\<close>
  "ascii_digits = lit ''0123456789''"

definition ascii_letters :: py_str where
  \<comment> \<open>\<open>string.ascii_letters\<close>\<close>
  "ascii_letters = lit ''abcdefghijklmnopqrstuvwxyzABCDEFGHIJKLMNOPQRSTUVWXYZ''"

fun extend_digits :: "py_str \<Rightarrow> nat list \<Rightarrow> error + py_str" where
  \<comment> \<open>\<open>for i in range(...): digits += chr(i)\<close>\<close>
  "extend_digits ds [] = Inr ds"
| "extend_digits ds (i # is) =
     (case chr (int i) of Inl e \<Rightarrow> Inl e | Inr c \<Rightarrow> extend_digits (ds @ c) is)"

definition canonical_digits :: "py_str \<Rightarrow> error + py_str" where
  \<comment> \<open>lines 355 to 357\<close>
  "canonical_digits cs =
     (let ds = ascii_digits @ ascii_letters
      in extend_digits ds [length ds ..< length cs])"

fun pair_items :: "py_str \<Rightarrow> py_str \<Rightarrow> nat list \<Rightarrow> error + (py_str \<times> py_str) list" where
  \<comment> \<open>the items \<open>digits[i]: charset[i]\<close> of the comprehension, in the order of \<open>i\<close>\<close>
  "pair_items ds cs [] = Inr []"
| "pair_items ds cs (i # is) =
     (case str_getitem ds (int i) of
        Inl e \<Rightarrow> Inl e
      | Inr k \<Rightarrow>
          (case str_getitem cs (int i) of
             Inl e \<Rightarrow> Inl e
           | Inr v \<Rightarrow>
               (case pair_items ds cs is of
                  Inl e \<Rightarrow> Inl e
                | Inr kvs \<Rightarrow> Inr ((k, v) # kvs))))"

definition make_replacement :: "py_str \<Rightarrow> py_str \<Rightarrow> error + (py_str, py_str) dict" where
  \<comment> \<open>lines 359 to 361\<close>
  "make_replacement ds cs =
     (case pair_items ds cs [0 ..< length cs] of
        Inl e \<Rightarrow> Inl e
      | Inr kvs \<Rightarrow> Inr (dict_of_items kvs))"

text \<open>
  The list \<open>pipe\<close> has seven stages of seven different types, so
  \<open>builder.addAll(pipe).build()\<close> is written out: \<open>build\<close> chains the first two
  stages and then chains the result with each further stage.
\<close>

definition pipeline ::
    "base_n \<Rightarrow> (py_str, py_str) dict \<Rightarrow> py_str \<Rightarrow> embedded
     \<Rightarrow> (py_str, py_str, py_str, py_str gen) translator" where
  "pipeline bn repl separator emb =
     ChainedTranslator
      (ChainedTranslator
        (ChainedTranslator
          (ChainedTranslator
            (ChainedTranslator
              (ChainedTranslator
                (IterableTranslator iter_str iter_gen UnicodeCharacterTranslator)
                (IterableTranslator iter_gen iter_gen (Base10ToBaseNTranslator bn)))
              (IterableTranslator iter_gen iter_gen
                 (FunctionTranslator str_of_str (str_join []))))
            (IterableTranslator iter_gen iter_gen
               (IterableTranslator iter_str iter_list
                  (StringReplacementTranslator (StringReplacementTranslator_init repl)))))
          (IterableTranslator iter_gen iter_list
             (FunctionTranslator (str_join []) list_of_str)))
        (FunctionTranslator (str_join separator) (split separator)))
      (EmbeddedMessageTranslator emb)"

definition CharsetTranslatorBuilder_build ::
    "charset_builder \<Rightarrow> error + (py_str, py_str, py_str, py_str gen) translator" where
  "CharsetTranslatorBuilder_build self =
     (case canonical_digits (cb_charset self) of
        Inl e \<Rightarrow> Inl e
      | Inr ds \<Rightarrow>
     (case make_replacement ds (cb_charset self) of
        Inl e \<Rightarrow> Inl e
      | Inr repl \<Rightarrow>
     (case Base10ToBaseNTranslator_init (int (length (cb_charset self))) ds 0 of
        Inl e \<Rightarrow> Inl e
      | Inr bn \<Rightarrow>
     (case EmbeddedMessageTranslator_init (cb_start_seq self) (cb_end_seq self) of
        Inl e \<Rightarrow> Inl e
      | Inr emb \<Rightarrow> Inr (pipeline bn repl (cb_separator self) emb)))))"

definition run_decode_encode ::
    "charset_builder \<Rightarrow> py_str \<Rightarrow> error + py_str gen" where
  \<comment> \<open>\<open>t = builder.build(); t.decode(t.encode(message))\<close>\<close>
  "run_decode_encode self message =
     (case CharsetTranslatorBuilder_build self of
        Inl e \<Rightarrow> Inl e
      | Inr t \<Rightarrow> (case encode t message of Inl e \<Rightarrow> Inl e | Inr text \<Rightarrow> decode t text))"

section \<open>Specification functions\<close>

text \<open>Sequential application of a list of functions, the first failure ending it:
  what the specification calls applying all translators in order.\<close>

fun apply_in_order :: "('v \<Rightarrow> error + 'v) list \<Rightarrow> 'v \<Rightarrow> error + 'v" where
  "apply_in_order [] x = Inr x"
| "apply_in_order (f # fs) x = (case f x of Inl e \<Rightarrow> Inl e | Inr y \<Rightarrow> apply_in_order fs y)"

text \<open>A stage over the integers, for concrete instances.\<close>

definition shift_stage :: "int \<Rightarrow> int stage" where
  "shift_stage k = \<lparr> encode = (\<lambda>x. Inr (x + k)), decode = (\<lambda>y. Inr (y - k)) \<rparr>"

text \<open>The digits of a natural number in base \<open>b\<close>, least significant first, and the
  number a digit list stands for.\<close>

function lsd :: "nat \<Rightarrow> nat \<Rightarrow> nat list" where
  "lsd b n = (if n = 0 \<or> b < 2 then [] else (n mod b) # lsd b (n div b))"
  by pat_completeness auto
termination
  by (relation "measure (\<lambda>(b, n). n)") auto

fun lsd_value :: "nat \<Rightarrow> nat list \<Rightarrow> nat" where
  "lsd_value b [] = 0"
| "lsd_value b (d # ds) = d + b * lsd_value b ds"

declare lsd.simps [simp del]

text \<open>A configuration for concrete instances: hexadecimal, padded to four characters.\<close>

definition hex :: base_n where
  "hex = \<lparr> base = 16, digits = lit ''0123456789abcdef'', padding = 4 \<rparr>"

text \<open>What the stages between the character and its group of target symbols compute
  for one item, in either direction.\<close>

definition encode_item :: "base_n \<Rightarrow> (py_str, py_str) dict \<Rightarrow> py_str \<Rightarrow> error + py_str" where
  "encode_item bn repl c =
     (case encode UnicodeCharacterTranslator c of
        Inl e \<Rightarrow> Inl e
      | Inr n \<Rightarrow>
          (case base_n_encode bn n of
             Inl e \<Rightarrow> Inl e
           | Inr s \<Rightarrow> str_join [] (genexp (dict_get repl) (map (\<lambda>x. [x]) s) None)))"

definition decode_item :: "base_n \<Rightarrow> (py_str, py_str) dict \<Rightarrow> py_str \<Rightarrow> error + py_str" where
  "decode_item bn repl g =
     (case str_join []
             (genexp (dict_get (charset_inv (StringReplacementTranslator_init repl)))
                (map (\<lambda>x. [x]) g) None) of
        Inl e \<Rightarrow> Inl e
      | Inr s \<Rightarrow>
          (case base_n_decode bn s of
             Inl e \<Rightarrow> Inl e
           | Inr n \<Rightarrow> decode UnicodeCharacterTranslator n))"

text \<open>Composition of two steps that may fail.\<close>

definition kleisli :: "('a \<Rightarrow> error + 'b) \<Rightarrow> ('b \<Rightarrow> error + 'c) \<Rightarrow> 'a \<Rightarrow> error + 'c" where
  "kleisli f g = (\<lambda>x. case f x of Inl e \<Rightarrow> Inl e | Inr y \<Rightarrow> g y)"

text \<open>The configuration of the specification's scenario.\<close>

definition demo_builder :: charset_builder where
  "demo_builder = \<lparr> cb_charset = lit ''AB'', cb_separator = lit ''-'',
                    cb_start_seq = lit ''<<'', cb_end_seq = lit ''>>'' \<rparr>"

text \<open>A target alphabet of 66 different symbols.\<close>

definition charset66 :: py_str where
  "charset66 = lit ''0123456789abcdefghijklmnopqrstuvwxyzABCDEFGHIJKLMNOPQRSTUVWXYZ!#%&''"

text \<open>A span of the carrier: at position \<open>i\<close> stands the start marker, then \<open>mid\<close>, which
  has no line feed, then the end marker.\<close>

definition span_at :: "py_str \<Rightarrow> py_str \<Rightarrow> py_str \<Rightarrow> nat \<Rightarrow> py_str \<Rightarrow> bool" where
  "span_at s e text i mid =
     (i \<le> length text \<and> prefix (s @ mid @ e) (drop i text) \<and> 10 \<notin> set mid)"

text \<open>The markers of the specification's scenario.\<close>

definition angle :: embedded where
  "angle = \<lparr> start_seq = lit ''<<'', end_seq = lit ''>>'' \<rparr>"

text \<open>The digit alphabet and the pairing that \<open>build\<close> computes for a target alphabet
  of at most 65 symbols, in closed form.\<close>

definition digits_for :: "py_str \<Rightarrow> py_str" where
  "digits_for cs = ascii_digits @ ascii_letters @ [62 ..< length cs]"

definition pairs_for :: "py_str \<Rightarrow> py_str \<Rightarrow> (py_str \<times> py_str) list" where
  "pairs_for ds cs = map (\<lambda>i. ([ds ! i], [cs ! i])) [0 ..< length cs]"

text \<open>The digits of a code point, most significant first, as \<open>encode\<close> writes them.\<close>

definition msd :: "nat \<Rightarrow> nat \<Rightarrow> nat list" where
  "msd b x = (if x = 0 then [0] else rev (lsd b x))"

section \<open>Character and code point\<close>

text \<open>
  Claim C9. \<open>UnicodeCharacterTranslator.encode\<close> fails with the InvalidInput error, which
  names the offending value, on every string whose length is not one, and returns the
  code point of a one-character string; \<open>decode\<close> fails with the OutOfRange error on every
  number outside 0..255 and returns the character with that code point otherwise.
\<close>

theorem unicode_character_translator_spec:
  "(length c \<noteq> 1 \<longrightarrow> encode UnicodeCharacterTranslator c = Inl (InvalidInput c)) \<and>
   encode UnicodeCharacterTranslator [x] = Inr (int x) \<and>
   (n < 0 \<or> 255 < n \<longrightarrow> decode UnicodeCharacterTranslator n = Inl (OutOfRange n)) \<and>
   (0 \<le> m \<and> m \<le> 255 \<longrightarrow> decode UnicodeCharacterTranslator m = Inr [nat m])"
  by (simp add: UnicodeCharacterTranslator_def ord_def chr_def)

theorem unicode_character_translator_witness:
  "length (lit ''ab'') \<noteq> 1 \<and>
   encode UnicodeCharacterTranslator (lit ''ab'') = Inl (InvalidInput (lit ''ab'')) \<and>
   encode UnicodeCharacterTranslator (lit ''a'') = Inr 97 \<and>
   decode UnicodeCharacterTranslator 256 = Inl (OutOfRange 256) \<and>
   decode UnicodeCharacterTranslator 97 = Inr (lit ''a'')"
  using unicode_character_translator_spec [of "lit ''ab''" 97 256 97]
  by (simp add: lit_def)

section \<open>Base conversion at concrete inputs\<close>

text \<open>
  Claim C2. \<open>encode(0)\<close> should return the digit at position 0 of the configured
  alphabet. The code returns the literal \<open>'0'\<close> (line 93) whatever the alphabet is: with
  base 2 and the digits \<open>AB\<close>, a configuration the constructor accepts, the zero digit
  is \<open>A\<close> and \<open>encode(0)\<close> is \<open>0\<close>.
\<close>

theorem encode_zero_ignores_alphabet:
  "Base10ToBaseNTranslator_init 2 (lit ''AB'') 0
     = Inr \<lparr> base = 2, digits = lit ''AB'', padding = 0 \<rparr> \<and>
   str_getitem (lit ''AB'') 0 = Inr (lit ''A'') \<and>
   encode (Base10ToBaseNTranslator \<lparr> base = 2, digits = lit ''AB'', padding = 0 \<rparr>) 0
     = Inr (lit ''0'') \<and>
   lit ''0'' \<noteq> lit ''A''"
  by (simp add: Base10ToBaseNTranslator_init_def Base10ToBaseNTranslator_def base_n_encode_def
      lit_def str_getitem_def getitem_def)

text \<open>
  Claim C3. With padding 4, base 2 and the digits \<open>01\<close>, \<open>encode(-1)\<close> is \<open>00-1\<close>: the
  sign is appended before the padding loop runs (lines 106 to 110), so after the
  reversal the zero digits stand to the left of the sign, and \<open>decode\<close>, which looks
  for the sign at position 0 only, rejects the string. \<open>encode(0)\<close> returns before
  the padding loop and has length 1.
\<close>

theorem encode_padding_misplaced:
  "Base10ToBaseNTranslator_init 2 (lit ''01'') 4
     = Inr \<lparr> base = 2, digits = lit ''01'', padding = 4 \<rparr> \<and>
   encode (Base10ToBaseNTranslator \<lparr> base = 2, digits = lit ''01'', padding = 4 \<rparr>) (- 1)
     = Inr (lit ''00-1'') \<and>
   encode (Base10ToBaseNTranslator \<lparr> base = 2, digits = lit ''01'', padding = 4 \<rparr>) 0
     = Inr (lit ''0'') \<and>
   decode (Base10ToBaseNTranslator \<lparr> base = 2, digits = lit ''01'', padding = 4 \<rparr>) (lit ''00-1'')
     = Inl InvalidDigit"
  by (simp add: Base10ToBaseNTranslator_init_def Base10ToBaseNTranslator_def base_n_encode_def
      base_n_decode_def encode_loop.simps pad_loop.simps lit_def str_getitem_def getitem_def
      str_index_def)

section \<open>Framing\<close>

lemma slice_between:
  "slice (Some (int (length a))) (Some (int (length (a @ b @ c)) - int (length c))) (a @ b @ c) = b"
  by (simp add: slice_def clamp_index_def)

text \<open>
  Claim C8. \<open>encode(payload)\<close> is the start marker, the payload and the end marker, put
  together with no escaping, and \<open>decodeCandidate\<close> of that string is the payload. This
  holds for every payload, also for one that contains the end marker.
\<close>

theorem embedded_encode_decodeCandidate:
  "embedded_encode self payload = Inr (start_seq self @ payload @ end_seq self) \<and>
   decodeCandidate self (start_seq self @ payload @ end_seq self) = Inr payload"
  using slice_between [of "start_seq self" payload "end_seq self"]
  by (simp add: embedded_encode_def decodeCandidate_def Let_def suffix_def)

section \<open>Chaining\<close>

lemma encode_Chained [simp]:
  "encode (ChainedTranslator t1 t2) x =
     (case encode t1 x of Inl e \<Rightarrow> Inl e | Inr tmp \<Rightarrow> encode t2 tmp)"
  by (simp add: ChainedTranslator_def)

lemma decode_Chained [simp]:
  "decode (ChainedTranslator t1 t2) y =
     (case decode t2 y of Inl e \<Rightarrow> Inl e | Inr tmp \<Rightarrow> decode t1 tmp)"
  by (simp add: ChainedTranslator_def)

lemma foldl_chain_encode:
  "encode (foldl ChainedTranslator T ts) x =
     (case encode T x of Inl e \<Rightarrow> Inl e | Inr y \<Rightarrow> apply_in_order (map encode ts) y)"
proof (induction ts arbitrary: T)
  case Nil
  show ?case by (simp split: sum.splits)
next
  case (Cons t ts)
  show ?case by (simp add: Cons.IH split: sum.splits)
qed

lemma apply_in_order_append:
  "apply_in_order (fs @ gs) x =
     (case apply_in_order fs x of Inl e \<Rightarrow> Inl e | Inr y \<Rightarrow> apply_in_order gs y)"
  by (induction fs arbitrary: x) (simp_all split: sum.splits)

lemma foldl_chain_decode:
  "decode (foldl ChainedTranslator T ts) y =
     (case apply_in_order (map decode (rev ts)) y of Inl e \<Rightarrow> Inl e | Inr z \<Rightarrow> decode T z)"
proof (induction ts arbitrary: T)
  case Nil
  show ?case by simp
next
  case (Cons t ts)
  show ?case
    by (simp add: Cons.IH apply_in_order_append split: sum.splits)
qed

lemma build_two_or_more:
  "ChainTranslatorBuilder_build (t1 # t2 # ts)
     = Inr (foldl ChainedTranslator (ChainedTranslator t1 t2) ts)"
  by (simp add: ChainTranslatorBuilder_build_def slice_def clamp_index_def)

text \<open>
  Claim C7. \<open>ChainTranslatorBuilder.build()\<close> fails with BuildError on the empty list,
  returns the only translator of a one-element list, and for two or more translators
  returns a composite whose \<open>encode\<close> runs every \<open>encode\<close> in the order of the list and
  whose \<open>decode\<close> runs every \<open>decode\<close> in the reverse order.
\<close>

theorem chain_builder_build:
  "ChainTranslatorBuilder_build [] = Inl BuildError \<and>
   ChainTranslatorBuilder_build [t] = Inr t \<and>
   (2 \<le> length ts \<longrightarrow>
      (\<exists>T. ChainTranslatorBuilder_build ts = Inr T \<and>
           (\<forall>x. encode T x = apply_in_order (map encode ts) x) \<and>
           (\<forall>y. decode T y = apply_in_order (map decode (rev ts)) y)))"
proof (intro conjI impI)
  show "ChainTranslatorBuilder_build [] = Inl BuildError"
    by (simp add: ChainTranslatorBuilder_build_def)
  show "ChainTranslatorBuilder_build [t] = Inr t"
    by (simp add: ChainTranslatorBuilder_build_def getitem_def)
next
  assume "2 \<le> length ts"
  then obtain t1 t2 rest where ts: "ts = t1 # t2 # rest"
    by (cases ts; cases "tl ts") auto
  let ?T = "foldl ChainedTranslator (ChainedTranslator t1 t2) rest"
  have "ChainTranslatorBuilder_build ts = Inr ?T"
    by (simp add: ts build_two_or_more)
  moreover have "encode ?T x = apply_in_order (map encode ts) x" for x
    by (simp add: ts foldl_chain_encode split: sum.splits)
  moreover have "decode ?T y = apply_in_order (map decode (rev ts)) y" for y
    by (simp add: ts foldl_chain_decode apply_in_order_append split: sum.splits)
  ultimately show "\<exists>T. ChainTranslatorBuilder_build ts = Inr T \<and>
           (\<forall>x. encode T x = apply_in_order (map encode ts) x) \<and>
           (\<forall>y. decode T y = apply_in_order (map decode (rev ts)) y)"
    by blast
qed

theorem chain_builder_build_witness:
  "2 \<le> length [shift_stage 1, shift_stage 10, shift_stage 100] \<and>
   (\<exists>T. ChainTranslatorBuilder_build [shift_stage 1, shift_stage 10, shift_stage 100] = Inr T \<and>
        encode T 0 = Inr 111 \<and> decode T 111 = Inr 0)"
proof -
  let ?ts = "[shift_stage 1, shift_stage 10, shift_stage 100]"
  have len: "2 \<le> length ?ts" by simp
  have "\<exists>T. ChainTranslatorBuilder_build ?ts = Inr T \<and>
        (\<forall>x. encode T x = apply_in_order (map encode ?ts) x) \<and>
        (\<forall>y. decode T y = apply_in_order (map decode (rev ?ts)) y)"
    using chain_builder_build [of "shift_stage 1" ?ts] len by blast
  then obtain T where T: "ChainTranslatorBuilder_build ?ts = Inr T"
    "encode T 0 = apply_in_order (map encode ?ts) 0"
    "decode T 111 = apply_in_order (map decode (rev ?ts)) 111"
    by blast
  have "encode T 0 = Inr 111" "decode T 111 = Inr 0"
    using T(2,3) by (simp_all add: shift_stage_def)
  with T(1) show ?thesis by simp
qed

section \<open>Base conversion: the round trip\<close>

lemma lsd_value_lsd: "2 \<le> b \<Longrightarrow> lsd_value b (lsd b n) = n"
proof (induction n rule: less_induct)
  case (less n)
  show ?case
  proof (cases "n = 0")
    case True
    then show ?thesis by (simp add: lsd.simps)
  next
    case False
    with less.prems have "n div b < n" by simp
    from less.IH [OF this less.prems] False less.prems show ?thesis
      by (subst lsd.simps) simp
  qed
qed

lemma lsd_bound: "2 \<le> b \<Longrightarrow> d \<in> set (lsd b n) \<Longrightarrow> d < b"
proof (induction n rule: less_induct)
  case (less n)
  show ?case
  proof (cases "n = 0")
    case True
    with less.prems show ?thesis by (simp add: lsd.simps)
  next
    case False
    with less.prems have lt: "n div b < n" by simp
    from less.prems(2) False less.prems(1) have "d = n mod b \<or> d \<in> set (lsd b (n div b))"
      by (subst (asm) lsd.simps) auto
    then show ?thesis
      using less.IH [OF lt less.prems(1)] less.prems(1) by auto
  qed
qed

lemma lsd_nonempty: "2 \<le> b \<Longrightarrow> 0 < n \<Longrightarrow> lsd b n \<noteq> []"
  by (subst lsd.simps) simp

lemma str_getitem_nat:
  "i < length s \<Longrightarrow> str_getitem s (int i) = Inr [s ! i]"
  by (simp add: str_getitem_def getitem_def)

lemma encode_loop_lsd:
  assumes "2 \<le> base self" and "base self \<le> int (length (digits self))"
  shows "encode_loop self (int n) acc
     = Some (Inr (acc @ map (\<lambda>d. [digits self ! d]) (lsd (nat (base self)) n)))"
proof (induction n arbitrary: acc rule: less_induct)
  case (less n)
  define b where "b = nat (base self)"
  have b: "base self = int b" "2 \<le> b" "b \<le> length (digits self)"
    using assms by (simp_all add: b_def)
  show ?case
  proof (cases "n = 0")
    case True
    then show ?thesis by (simp add: encode_loop.simps lsd.simps)
  next
    case False
    have lt: "n div b < n" using False b(2) by simp
    have m: "int n mod int b = int (n mod b)" "int n div int b = int (n div b)"
      by (simp_all add: zmod_int zdiv_int)
    have g: "str_getitem (digits self) (int (n mod b)) = Inr [digits self ! (n mod b)]"
      using b by (intro str_getitem_nat) (simp add: less_le_trans [OF mod_less_divisor])
    have "encode_loop self (int n) acc =
          encode_loop self (int (n div b)) (acc @ [[digits self ! (n mod b)]])"
      using False b by (subst encode_loop.simps) (simp add: m g)
    also have "\<dots> = Some (Inr ((acc @ [[digits self ! (n mod b)]])
                    @ map (\<lambda>d. [digits self ! d]) (lsd b (n div b))))"
      using less.IH [OF lt] by (simp add: b_def)
    also have "\<dots> = Some (Inr (acc @ map (\<lambda>d. [digits self ! d]) (lsd b n)))"
      using False b(2) by (subst (2) lsd.simps) simp
    finally show ?thesis by (simp add: b_def)
  qed
qed

lemma pad_loop_replicate:
  "digits self \<noteq> [] \<Longrightarrow> pad_loop self ds
     = Inr (ds @ replicate (nat (padding self - int (length ds))) [digits self ! 0])"
proof (induction self ds rule: pad_loop.induct)
  case (1 self ds)
  have z: "str_getitem (digits self) 0 = Inr [digits self ! 0]"
    using "1.prems" str_getitem_nat [of 0 "digits self"] by simp
  show ?case
  proof (cases "int (length ds) < padding self")
    case True
    have k: "nat (padding self - int (length ds))
             = Suc (nat (padding self - int (length (ds @ [[digits self ! 0]]))))"
      using True by simp
    have "pad_loop self ds = pad_loop self (ds @ [[digits self ! 0]])"
      using True by (subst pad_loop.simps) (simp add: z)
    also have "\<dots> = Inr ((ds @ [[digits self ! 0]])
         @ replicate (nat (padding self - int (length (ds @ [[digits self ! 0]])))) [digits self ! 0])"
      using "1.IH" [OF True z "1.prems"] .
    finally show ?thesis
      unfolding k by (simp add: replicate_app_Cons_same)
  next
    case False
    then show ?thesis by (subst pad_loop.simps) simp
  qed
qed

lemma str_find_single:
  "distinct xs \<Longrightarrow> d < length xs \<Longrightarrow> str_find [xs ! d] xs = Some d"
proof (induction xs arbitrary: d)
  case Nil
  then show ?case by simp
next
  case (Cons x xs)
  show ?case
  proof (cases d)
    case 0
    then show ?thesis by simp
  next
    case (Suc d')
    with Cons.prems have "xs ! d' \<in> set xs" "x \<notin> set xs" by simp_all
    then have "xs ! d' \<noteq> x" by blast
    with Suc Cons show ?thesis by simp
  qed
qed

lemma str_index_digit:
  "distinct ds \<Longrightarrow> d < length ds \<Longrightarrow> str_index ds [ds ! d] = Inr (int d)"
  by (simp add: str_index_def str_find_single)

lemma decode_loop_value:
  assumes "distinct (digits self)" and "0 \<le> base self"
  shows "\<forall>d \<in> set dl. d < length (digits self) \<Longrightarrow>
     decode_loop self (map (\<lambda>d. digits self ! d) dl) i acc
       = Inr (acc + base self ^ i * int (lsd_value (nat (base self)) dl))"
proof (induction dl arbitrary: i acc)
  case Nil
  then show ?case by simp
next
  case (Cons d dl)
  have "str_index (digits self) [digits self ! d] = Inr (int d)"
    using Cons.prems assms by (simp add: str_index_digit)
  then show ?case
    using Cons assms(2) by (simp add: algebra_simps)
qed

lemma lsd_value_zeros: "lsd_value b (dl @ replicate k 0) = lsd_value b dl"
  by (induction dl) (simp_all, induction k, simp_all)

lemma concat_rev_singletons:
  "concat (rev (map (\<lambda>d. [f d]) xs @ replicate k [f z])) = map f (rev (xs @ replicate k z))"
proof -
  have "map (\<lambda>d. [f d]) xs @ replicate k [f z] = map (\<lambda>d. [f d]) (xs @ replicate k z)"
    by simp
  then have "concat (rev (map (\<lambda>d. [f d]) xs @ replicate k [f z]))
             = concat (map (\<lambda>d. [f d]) (rev (xs @ replicate k z)))"
    by (simp only: rev_map)
  also have "\<dots> = map f (rev (xs @ replicate k z))"
    by (induction "rev (xs @ replicate k z)") simp_all
  finally show ?thesis .
qed

lemma concat_map_singleton: "concat (map (\<lambda>d. [f d]) ys) = map f ys"
  by (induction ys) simp_all

lemma base_n_encode_positive:
  assumes "2 \<le> base self" and "base self \<le> int (length (digits self))" and "0 < n"
  shows "base_n_encode self (int n)
     = Inr (map (\<lambda>d. digits self ! d)
              (rev (lsd (nat (base self)) n
                    @ replicate (nat (padding self - int (length (lsd (nat (base self)) n)))) 0)))"
proof -
  have ne: "digits self \<noteq> []" using assms(1,2) by auto
  show ?thesis
    using assms(3)
    by (simp add: base_n_encode_def encode_loop_lsd [OF assms(1,2)] pad_loop_replicate [OF ne]
        concat_rev_singletons del: rev_append)
qed

lemma base_n_encode_negative:
  assumes "2 \<le> base self" and "base self \<le> int (length (digits self))" and "0 < n"
    and "padding self \<le> int (length (lsd (nat (base self)) n)) + 1"
  shows "base_n_encode self (- int n)
     = Inr (lit ''-'' @ map (\<lambda>d. digits self ! d) (rev (lsd (nat (base self)) n)))"
proof -
  have ne: "digits self \<noteq> []" using assms(1,2) by auto
  have k: "nat (padding self - (1 + int (length (lsd (nat (base self)) n)))) = 0"
    using assms(4) by simp
  show ?thesis
    using assms(3)
    by (simp add: base_n_encode_def encode_loop_lsd [OF assms(1,2)] pad_loop_replicate [OF ne]
        k rev_map concat_map_singleton)
qed

lemma base_n_decode_digits:
  assumes "2 \<le> base self" and "distinct (digits self)"
    and "set (lit ''-'') \<inter> set (digits self) = {}"
    and "dl \<noteq> []" and "\<forall>d \<in> set dl. d < length (digits self)"
  shows "base_n_decode self (map (\<lambda>d. digits self ! d) (rev dl))
     = Inr (int (lsd_value (nat (base self)) dl))"
proof -
  let ?s = "map (\<lambda>d. digits self ! d) (rev dl)"
  have len: "0 < length ?s" using assms(4) by simp
  have "?s ! 0 \<in> set (digits self)"
    using assms(4,5) by (simp add: rev_nth last_conv_nth [symmetric])
  then have nm: "[?s ! 0] \<noteq> lit ''-''"
    using assms(3) by (auto simp: lit_def)
  have g: "str_getitem ?s 0 = Inr [?s ! 0]"
    using str_getitem_nat [OF len] by simp
  have "decode_loop self (rev ?s) 0 0 = Inr (int (lsd_value (nat (base self)) dl))"
    using decode_loop_value [of self dl 0 0] assms by (simp add: rev_map)
  then show ?thesis
    using nm by (simp add: base_n_decode_def g)
qed

lemma base_n_decode_signed:
  assumes "2 \<le> base self" and "distinct (digits self)"
    and "\<forall>d \<in> set dl. d < length (digits self)"
  shows "base_n_decode self (lit ''-'' @ map (\<lambda>d. digits self ! d) (rev dl))
     = Inr (- int (lsd_value (nat (base self)) dl))"
proof -
  let ?s = "map (\<lambda>d. digits self ! d) (rev dl)"
  have g: "str_getitem (lit ''-'' @ ?s) 0 = Inr (lit ''-'')"
    by (simp add: str_getitem_def getitem_def lit_def)
  have sl: "slice (Some 1) None (lit ''-'' @ ?s) = ?s"
    by (simp add: slice_def clamp_index_def lit_def)
  have "decode_loop self (rev ?s) 0 0 = Inr (int (lsd_value (nat (base self)) dl))"
    using decode_loop_value [of self dl 0 0] assms by (simp add: rev_map)
  then show ?thesis
    by (simp add: base_n_decode_def g sl)
qed

text \<open>
  Claim C5, amended. Let the base be at least 2, the digit alphabet have at least as
  many symbols as the base, all different, none of them the minus sign. Then
  \<open>decode(encode(n))\<close> is \<open>n\<close> for every positive \<open>n\<close> and every padding; for \<open>n = 0\<close>
  when the zero digit of the alphabet is the character \<open>0\<close>; and for every negative
  \<open>n\<close> when the padding does not exceed the length of the unpadded numeral, sign
  included (so for the default padding 0), in which case the numeral starts with the
  minus sign.
\<close>

theorem base_n_round_trip:
  assumes "2 \<le> base self" and "base self \<le> int (length (digits self))"
    and "distinct (digits self)" and "set (lit ''-'') \<inter> set (digits self) = {}"
    and "n = 0 \<longrightarrow> str_getitem (digits self) 0 = Inr (lit ''0'')"
    and "n < 0 \<longrightarrow> padding self \<le> int (length (lsd (nat (base self)) (nat (- n)))) + 1"
  shows "\<exists>s. encode (Base10ToBaseNTranslator self) n = Inr s \<and>
             decode (Base10ToBaseNTranslator self) s = Inr n \<and>
             (n < 0 \<longrightarrow> str_getitem s 0 = Inr (lit ''-''))"
proof -
  let ?b = "nat (base self)"
  have b2: "2 \<le> ?b" using assms(1) by simp
  have ne: "digits self \<noteq> []" using assms(1,2) by auto
  have small: "d < length (digits self)" if "d \<in> set (lsd ?b m)" for d m
    using lsd_bound [OF b2 that] assms(2) by simp
  consider (zero) "n = 0" | (pos) "0 < n" | (neg) "n < 0" by linarith
  then show ?thesis
  proof cases
    case zero
    with assms(5) have z: "str_getitem (digits self) 0 = Inr (lit ''0'')" by simp
    have "str_getitem (digits self) 0 = Inr [digits self ! 0]"
      using ne str_getitem_nat [of 0 "digits self"] by simp
    with z have d0: "lit ''0'' = [digits self ! 0]" by simp
    have "str_index (digits self) (lit ''0'') = Inr 0"
      unfolding d0 using str_index_digit [OF assms(3), of 0] ne by simp
    then have "base_n_decode self (lit ''0'') = Inr 0"
      by (simp add: base_n_decode_def str_getitem_def getitem_def lit_def)
    then show ?thesis
      using zero by (simp add: Base10ToBaseNTranslator_def base_n_encode_def)
  next
    case pos
    define m where "m = nat n"
    have n: "n = int m" "0 < m" using pos by (simp_all add: m_def)
    let ?dl = "lsd ?b m @ replicate (nat (padding self - int (length (lsd ?b m)))) 0"
    have e: "base_n_encode self n = Inr (map (\<lambda>d. digits self ! d) (rev ?dl))"
      unfolding n(1) by (rule base_n_encode_positive [OF assms(1,2) n(2)])
    have "?dl \<noteq> []" using lsd_nonempty [OF b2 n(2)] by simp
    moreover have "\<forall>d \<in> set ?dl. d < length (digits self)"
      using small ne by auto
    ultimately have "base_n_decode self (map (\<lambda>d. digits self ! d) (rev ?dl))
        = Inr (int (lsd_value ?b ?dl))"
      by (rule base_n_decode_digits [OF assms(1,3,4)])
    also have "lsd_value ?b ?dl = m"
      by (simp only: lsd_value_zeros lsd_value_lsd [OF b2])
    finally show ?thesis
      using e n pos by (simp add: Base10ToBaseNTranslator_def)
  next
    case neg
    define m where "m = nat (- n)"
    have n: "n = - int m" "0 < m" using neg by (simp_all add: m_def)
    have p: "padding self \<le> int (length (lsd ?b m)) + 1"
      using assms(6) neg by (simp add: m_def)
    have e: "base_n_encode self n
        = Inr (lit ''-'' @ map (\<lambda>d. digits self ! d) (rev (lsd ?b m)))"
      unfolding n(1) by (rule base_n_encode_negative [OF assms(1,2) n(2) p])
    have "base_n_decode self (lit ''-'' @ map (\<lambda>d. digits self ! d) (rev (lsd ?b m)))
        = Inr (- int (lsd_value ?b (lsd ?b m)))"
      using small by (intro base_n_decode_signed [OF assms(1,3)]) blast
    then have "base_n_decode self (lit ''-'' @ map (\<lambda>d. digits self ! d) (rev (lsd ?b m)))
        = Inr n"
      by (simp add: lsd_value_lsd [OF b2] n(1))
    moreover have "str_getitem (lit ''-'' @ map (\<lambda>d. digits self ! d) (rev (lsd ?b m))) 0
        = Inr (lit ''-'')"
      by (simp add: str_getitem_def getitem_def lit_def)
    ultimately show ?thesis
      using e by (simp add: Base10ToBaseNTranslator_def)
  qed
qed

theorem base_n_round_trip_witness:
  "(\<exists>s. encode (Base10ToBaseNTranslator hex) 0 = Inr s \<and>
        decode (Base10ToBaseNTranslator hex) s = Inr 0) \<and>
   (\<exists>s. encode (Base10ToBaseNTranslator hex) 255 = Inr s \<and>
        decode (Base10ToBaseNTranslator hex) s = Inr 255) \<and>
   (\<exists>s. encode (Base10ToBaseNTranslator hex) (- 4096) = Inr s \<and>
        decode (Base10ToBaseNTranslator hex) s = Inr (- 4096) \<and>
        str_getitem s 0 = Inr (lit ''-''))"
proof -
  have v: "2 \<le> base hex" "base hex \<le> int (length (digits hex))" "distinct (digits hex)"
    "set (lit ''-'') \<inter> set (digits hex) = {}"
    by (simp_all add: hex_def lit_def)
  have z: "str_getitem (digits hex) 0 = Inr (lit ''0'')"
    by (simp add: hex_def lit_def str_getitem_def getitem_def)
  have p: "padding hex \<le> int (length (lsd (nat (base hex)) (nat (- (- 4096))))) + 1"
    by (simp add: hex_def lsd.simps)
  show ?thesis
    using base_n_round_trip [OF v, of 0] base_n_round_trip [OF v, of 255]
      base_n_round_trip [OF v, of "- 4096"] z p
    by simp
qed

text \<open>
  Claim C5 as stated fails: base 2 with the digits \<open>1\<close> and \<open>-\<close> is a configuration of
  unique symbols that the constructor accepts; \<open>encode(1)\<close> is the string \<open>-\<close>, which
  \<open>decode\<close> reads as a sign followed by no digit, the number 0.
\<close>

theorem base_n_round_trip_counterexample:
  "Base10ToBaseNTranslator_init 2 (lit ''1-'') 0
     = Inr \<lparr> base = 2, digits = lit ''1-'', padding = 0 \<rparr> \<and>
   distinct (lit ''1-'') \<and>
   encode (Base10ToBaseNTranslator \<lparr> base = 2, digits = lit ''1-'', padding = 0 \<rparr>) 1
     = Inr (lit ''-'') \<and>
   decode (Base10ToBaseNTranslator \<lparr> base = 2, digits = lit ''1-'', padding = 0 \<rparr>) (lit ''-'')
     = Inr 0"
  by (simp add: Base10ToBaseNTranslator_init_def Base10ToBaseNTranslator_def base_n_encode_def
      base_n_decode_def encode_loop.simps pad_loop.simps lit_def str_getitem_def getitem_def
      str_index_def slice_def clamp_index_def)

section \<open>The pipeline, stage by stage\<close>

lemma genexp_fuse_pair:
  "genexp f xs e = (ys, e') \<Longrightarrow> genexp g ys e' = genexp (kleisli f g) xs e"
proof (induction xs arbitrary: ys e')
  case Nil
  then show ?case by simp
next
  case (Cons x xs)
  show ?case
  proof (cases "f x")
    case (Inl err)
    with Cons.prems show ?thesis by (auto simp: kleisli_def)
  next
    case (Inr y)
    obtain zs e2 where r: "genexp f xs e = (zs, e2)" by (cases "genexp f xs e")
    with Cons.prems Inr have ys: "ys = y # zs" "e' = e2" by simp_all
    from Cons.IH [OF r] have "genexp g zs e2 = genexp (kleisli f g) xs e" .
    then show ?thesis
      by (simp add: ys Inr kleisli_def split: sum.splits)
  qed
qed

lemma genexp_fuse:
  "genexp g (fst (genexp f xs e)) (snd (genexp f xs e)) = genexp (kleisli f g) xs e"
  by (rule genexp_fuse_pair) simp

lemma encode_Iterable:
  "encode (IterableTranslator itE itD t)
     = (\<lambda>l. Inr (genexp (encode t) (fst (itE l)) (snd (itE l))))"
  by (simp add: IterableTranslator_def)

lemma decode_Iterable:
  "decode (IterableTranslator itE itD t)
     = (\<lambda>l. Inr (genexp (decode t) (fst (itD l)) (snd (itD l))))"
  by (simp add: IterableTranslator_def)

lemma encode_item_chain:
  "kleisli (kleisli (kleisli (kleisli (encode UnicodeCharacterTranslator) (base_n_encode bn))
       str_of_str) (\<lambda>l. Inr (genexp (dict_get repl) (map (\<lambda>c. [c]) l) None))) (str_join [])
   = encode_item bn repl"
  by (rule ext) (simp add: kleisli_def encode_item_def str_of_str_def split: sum.splits)

lemma decode_item_chain:
  "kleisli (kleisli (kleisli (kleisli list_of_str
       (\<lambda>l. Inr (genexp (dict_get (charset_inv (StringReplacementTranslator_init repl))) l None)))
       (str_join [])) (base_n_decode bn)) (decode UnicodeCharacterTranslator)
   = decode_item bn repl"
  by (rule ext) (simp add: kleisli_def decode_item_def list_of_str_def split: sum.splits)

lemma encode_pipeline:
  "encode (pipeline bn repl sep emb) m =
     (case str_join sep (genexp (encode_item bn repl) (map (\<lambda>x. [x]) m) None) of
        Inl e \<Rightarrow> Inl e
      | Inr s \<Rightarrow> embedded_encode emb s)"
  by (simp add: pipeline_def encode_Iterable FunctionTranslator_def iter_str_def
        iter_gen_def iter_list_def Base10ToBaseNTranslator_def StringReplacementTranslator_def
        StringReplacementTranslator_init_def EmbeddedMessageTranslator_def genexp_fuse
        encode_item_chain split: sum.splits)

lemma decode_pipeline:
  "decode (pipeline bn repl sep emb) text =
     (case embedded_decode emb text of
        Inl e \<Rightarrow> Inl e
      | Inr p \<Rightarrow>
          (case split sep p of
             Inl e \<Rightarrow> Inl e
           | Inr groups \<Rightarrow> Inr (genexp (decode_item bn repl) groups None)))"
  by (simp add: pipeline_def decode_Iterable FunctionTranslator_def iter_str_def
        iter_gen_def iter_list_def Base10ToBaseNTranslator_def StringReplacementTranslator_def
        EmbeddedMessageTranslator_def genexp_fuse decode_item_chain split: sum.splits)

lemma decode_item_empty: "decode_item bn repl [] = Inl IndexError"
  by (simp add: decode_item_def str_join_def base_n_decode_def str_getitem_def getitem_def)

lemma genexp_raises:
  "x \<in> set xs \<Longrightarrow> f x = Inl err \<Longrightarrow> \<exists>e'. snd (genexp f xs e) = Some e'"
  by (induction xs) (auto split: sum.splits prod.splits)

text \<open>
  Claim C10. \<open>Base10ToBaseNTranslator.decode\<close> reads \<open>num[0]\<close> with no guard, so on
  the empty string it fails with \<open>IndexError\<close>, which is none of the error kinds of the
  specification. The pipeline therefore fails on every frame whose payload has an empty
  group: the generator that \<open>decode\<close> returns raises, and it raises this
  \<open>IndexError\<close> at once when the first group is the empty one.
\<close>

theorem decode_empty_numeral:
  "decode (Base10ToBaseNTranslator self) [] = Inl IndexError \<and>
   (embedded_decode emb text = Inr payload \<and> split sep payload = Inr groups \<and> [] \<in> set groups
      \<longrightarrow> (\<exists>vals e. decode (pipeline bn repl sep emb) text = Inr (vals, Some e))) \<and>
   (embedded_decode emb text = Inr payload \<and> split sep payload = Inr ([] # rest)
      \<longrightarrow> decode (pipeline bn repl sep emb) text = Inr ([], Some IndexError))"
proof (intro conjI impI)
  show "decode (Base10ToBaseNTranslator self) [] = Inl IndexError"
    by (simp add: Base10ToBaseNTranslator_def base_n_decode_def str_getitem_def getitem_def)
next
  assume a: "embedded_decode emb text = Inr payload \<and> split sep payload = Inr groups
             \<and> [] \<in> set groups"
  then obtain e where "snd (genexp (decode_item bn repl) groups None) = Some e"
    using genexp_raises [of "[]" groups "decode_item bn repl" IndexError None] decode_item_empty
    by blast
  then obtain vals where "genexp (decode_item bn repl) groups None = (vals, Some e)"
    by (cases "genexp (decode_item bn repl) groups None") simp
  with a show "\<exists>vals e. decode (pipeline bn repl sep emb) text = Inr (vals, Some e)"
    by (simp add: decode_pipeline)
next
  assume "embedded_decode emb text = Inr payload \<and> split sep payload = Inr ([] # rest)"
  then show "decode (pipeline bn repl sep emb) text = Inr ([], Some IndexError)"
    by (simp add: decode_pipeline decode_item_empty)
qed

lemma demo_build:
  "CharsetTranslatorBuilder_build demo_builder
     = Inr (pipeline \<lparr> base = 2, digits = ascii_digits @ ascii_letters, padding = 0 \<rparr>
              [(lit ''0'', lit ''A''), (lit ''1'', lit ''B'')] (lit ''-'')
              \<lparr> start_seq = lit ''<<'', end_seq = lit ''>>'' \<rparr>)"
  by (simp add: CharsetTranslatorBuilder_build_def demo_builder_def canonical_digits_def
      make_replacement_def dict_of_items_def Base10ToBaseNTranslator_init_def
      EmbeddedMessageTranslator_init_def re_literal_def metachars_def
      lit_def ascii_digits_def ascii_letters_def str_getitem_def getitem_def)

theorem decode_empty_numeral_witness:
  "embedded_decode \<lparr> start_seq = lit ''<<'', end_seq = lit ''>>'' \<rparr> (lit ''<<>>'') = Inr [] \<and>
   split (lit ''-'') [] = Inr [[]] \<and>
   decode (pipeline \<lparr> base = 2, digits = ascii_digits @ ascii_letters, padding = 0 \<rparr>
              [(lit ''0'', lit ''A''), (lit ''1'', lit ''B'')] (lit ''-'')
              \<lparr> start_seq = lit ''<<'', end_seq = lit ''>>'' \<rparr>) (lit ''<<>>'')
     = Inr ([], Some IndexError)"
proof -
  have d: "embedded_decode \<lparr> start_seq = lit ''<<'', end_seq = lit ''>>'' \<rparr> (lit ''<<>>'')
     = Inr []"
    by (simp add: embedded_decode_def match_here_def decodeCandidate_def dot_matches_def
        slice_def clamp_index_def lit_def suffix_def)
  have s: "split (lit ''-'') [] = Inr ([] # [])"
    by (simp add: split_def lit_def)
  have m: "[] \<in> set ([] # ([] :: py_str list))" by simp
  show ?thesis
    using decode_empty_numeral [of hex "\<lparr> start_seq = lit ''<<'', end_seq = lit ''>>'' \<rparr>"
        "lit ''<<>>''" "[]" "lit ''-''" "[] # []"
        "\<lparr> base = 2, digits = ascii_digits @ ascii_letters, padding = 0 \<rparr>"
        "[(lit ''0'', lit ''A''), (lit ''1'', lit ''B'')]" "[]"] d s m
    by simp
qed

section \<open>The canonical digit alphabet\<close>

text \<open>
  Claim C4. The canonical digit alphabet should consist of unique symbols. The code
  extends the 62 digits and letters with \<open>chr(62)\<close>, \<open>chr(63)\<close>, ... (line 357), and
  \<open>chr(65)\<close> is the letter \<open>A\<close>, which stands at position 36 already. For a target
  alphabet of 66 different symbols the digit alphabet has \<open>A\<close> twice, and the
  replacement dictionary has 65 entries: the digit \<open>A\<close> is paired with target
  symbol 65, and target symbol 36 is paired with no digit.
\<close>

theorem canonical_digits_repeat:
  "distinct charset66 \<and> length charset66 = 66 \<and>
   canonical_digits charset66 = Inr (ascii_digits @ ascii_letters @ lit ''>?@A'') \<and>
   \<not> distinct (ascii_digits @ ascii_letters @ lit ''>?@A'') \<and>
   str_getitem (ascii_digits @ ascii_letters @ lit ''>?@A'') 36 = Inr (lit ''A'') \<and>
   str_getitem (ascii_digits @ ascii_letters @ lit ''>?@A'') 65 = Inr (lit ''A'') \<and>
   (case make_replacement (ascii_digits @ ascii_letters @ lit ''>?@A'') charset66 of
      Inl e \<Rightarrow> False
    | Inr r \<Rightarrow> length r = 65 \<and> dict_get r (lit ''A'') = str_getitem charset66 65 \<and>
               str_getitem charset66 36 \<noteq> str_getitem charset66 65)"
proof -
  have 1: "distinct charset66 \<and> length charset66 = 66"
    by (simp add: charset66_def lit_def)
  have 2: "canonical_digits charset66 = Inr (ascii_digits @ ascii_letters @ lit ''>?@A'')"
    by (simp add: canonical_digits_def charset66_def lit_def ascii_digits_def ascii_letters_def
        chr_def upt_rec)
  have 3: "\<not> distinct (ascii_digits @ ascii_letters @ lit ''>?@A'')"
    by (simp add: lit_def ascii_digits_def ascii_letters_def)
  have 4: "str_getitem (ascii_digits @ ascii_letters @ lit ''>?@A'') 36 = Inr (lit ''A'')"
    "str_getitem (ascii_digits @ ascii_letters @ lit ''>?@A'') 65 = Inr (lit ''A'')"
    by (simp_all add: lit_def ascii_digits_def ascii_letters_def str_getitem_def getitem_def)
  have 5: "(case make_replacement (ascii_digits @ ascii_letters @ lit ''>?@A'') charset66 of
      Inl e \<Rightarrow> False
    | Inr r \<Rightarrow> length r = 65 \<and> dict_get r (lit ''A'') = str_getitem charset66 65 \<and>
               str_getitem charset66 36 \<noteq> str_getitem charset66 65)"
    by code_simp
  from 1 2 3 4 5 show ?thesis by blast
qed

section \<open>Framing: the scan of the carrier\<close>

lemma backtrack_Some:
  "backtrack e rest k = Some j \<Longrightarrow>
     j \<le> k \<and> prefix e (drop j rest) \<and> (\<forall>j'. j < j' \<and> j' \<le> k \<longrightarrow> \<not> prefix e (drop j' rest))"
proof (induction k)
  case 0
  then show ?case by (auto split: if_splits)
next
  case (Suc k)
  show ?case
  proof (cases "prefix e (drop (Suc k) rest)")
    case True
    with Suc.prems show ?thesis by auto
  next
    case False
    with Suc.prems have "backtrack e rest k = Some j" by simp
    from Suc.IH [OF this] False show ?thesis
      by (auto simp: le_Suc_eq)
  qed
qed

lemma backtrack_None:
  "backtrack e rest k = None \<Longrightarrow> j \<le> k \<Longrightarrow> \<not> prefix e (drop j rest)"
proof (induction k)
  case 0
  then show ?case by (auto split: if_splits)
next
  case (Suc k)
  then show ?case by (cases "j = Suc k") (auto split: if_splits)
qed

lemma no_newline_takeWhile:
  "10 \<notin> set mid \<Longrightarrow> prefix mid rest \<Longrightarrow> length mid \<le> length (takeWhile dot_matches rest)"
proof -
  assume a: "10 \<notin> set mid" "prefix mid rest"
  then obtain post where "rest = mid @ post" by (auto simp: prefix_def)
  moreover have "\<forall>c \<in> set mid. dot_matches c" using a(1) by (auto simp: dot_matches_def)
  ultimately have "takeWhile dot_matches rest = mid @ takeWhile dot_matches post"
    by simp
  then show ?thesis by simp
qed

lemma take_within_takeWhile:
  "j \<le> length (takeWhile dot_matches rest) \<Longrightarrow> 10 \<notin> set (take j rest)"
proof
  assume j: "j \<le> length (takeWhile dot_matches rest)" and m: "10 \<in> set (take j rest)"
  have "take j rest = take j (takeWhile dot_matches rest @ dropWhile dot_matches rest)"
    by simp
  also have "\<dots> = take j (takeWhile dot_matches rest)"
    using j by (simp only: take_append) simp
  finally have "set (take j rest) \<subseteq> set (takeWhile dot_matches rest)"
    using set_take_subset [of j "takeWhile dot_matches rest"] by simp
  with m have "dot_matches 10" by (auto dest: set_takeWhileD)
  then show False by (simp add: dot_matches_def)
qed

lemma match_here_Some:
  assumes "match_here s e text = Some m"
  shows "\<exists>mid. m = s @ mid @ e \<and> span_at s e text 0 mid \<and>
               (\<forall>mid'. span_at s e text 0 mid' \<longrightarrow> length mid' \<le> length mid)"
proof -
  from assms have ps: "prefix s text" by (auto simp: match_here_def split: if_splits)
  define rest where "rest = drop (length s) text"
  have tx: "text = s @ rest" using ps by (auto simp: rest_def prefix_def)
  from assms ps obtain j where
    j: "backtrack e rest (length (takeWhile dot_matches rest)) = Some j" and m: "m = s @ take j rest @ e"
    by (auto simp: match_here_def rest_def Let_def split: option.splits)
  from backtrack_Some [OF j] have
    jk: "j \<le> length (takeWhile dot_matches rest)" and pe: "prefix e (drop j rest)"
    and mx: "\<And>j'. j < j' \<Longrightarrow> j' \<le> length (takeWhile dot_matches rest) \<Longrightarrow> \<not> prefix e (drop j' rest)"
    by auto
  have jl: "j \<le> length rest"
    using jk length_takeWhile_le [of dot_matches rest] by linarith
  from pe obtain post where "drop j rest = e @ post" by (auto simp: prefix_def)
  then have "rest = (take j rest @ e) @ post"
    using append_take_drop_id [of j rest] by simp
  then have "prefix (take j rest @ e) rest"
    by (rule prefixI)
  then have sp: "span_at s e text 0 (take j rest)"
    using take_within_takeWhile [OF jk] by (simp add: span_at_def tx)
  have "length mid' \<le> length (take j rest)" if "span_at s e text 0 mid'" for mid'
  proof (rule ccontr)
    assume "\<not> length mid' \<le> length (take j rest)"
    then have gt: "j < length mid'" using jl by simp
    from that have p: "prefix (mid' @ e) rest" and nn: "10 \<notin> set mid'"
      by (simp_all add: span_at_def tx)
    from p have pm: "prefix mid' rest" by (rule append_prefixD)
    have le: "length mid' \<le> length (takeWhile dot_matches rest)"
      by (rule no_newline_takeWhile [OF nn pm])
    from p obtain post where "rest = mid' @ e @ post" by (auto simp: prefix_def)
    then have "prefix e (drop (length mid') rest)" by simp
    with mx [OF gt le] show False by simp
  qed
  with m sp show ?thesis by blast
qed

lemma match_here_None:
  assumes "match_here s e text = None"
  shows "\<not> span_at s e text 0 mid"
proof
  assume sp: "span_at s e text 0 mid"
  then have p: "prefix (s @ mid @ e) text" and nn: "10 \<notin> set mid"
    by (simp_all add: span_at_def)
  then obtain post where tx: "text = s @ mid @ e @ post" by (auto simp: prefix_def)
  define rest where "rest = drop (length s) text"
  have rest: "rest = mid @ e @ post" by (simp add: rest_def tx)
  have ps: "prefix s text" by (simp add: tx)
  from assms ps have "backtrack e rest (length (takeWhile dot_matches rest)) = None"
    by (auto simp: match_here_def rest_def Let_def split: option.splits)
  moreover have "length mid \<le> length (takeWhile dot_matches rest)"
    by (rule no_newline_takeWhile [OF nn]) (simp add: rest)
  ultimately have "\<not> prefix e (drop (length mid) rest)"
    by (rule backtrack_None)
  then show False by (simp add: rest)
qed

lemma span_at_Cons: "span_at s e (c # cs) (Suc i) mid = span_at s e cs i mid"
  by (simp add: span_at_def)

lemma span_at_Nil: "span_at s e [] i mid \<Longrightarrow> i = 0"
  by (simp add: span_at_def)

lemma first_match_None:
  "first_match s e text = None \<Longrightarrow> \<not> span_at s e text i mid"
proof (induction "text" arbitrary: i)
  case Nil
  then show ?case using match_here_None [of s e "[]" mid] span_at_Nil [of s e i mid] by auto
next
  case (Cons c cs)
  from Cons.prems have h: "match_here s e (c # cs) = None" and t: "first_match s e cs = None"
    by (auto split: option.splits)
  show ?case
  proof (cases i)
    case 0
    with match_here_None [OF h] show ?thesis by simp
  next
    case (Suc i')
    with Cons.IH [OF t] show ?thesis by (simp add: span_at_Cons)
  qed
qed

lemma first_match_Some:
  "first_match s e text = Some m \<Longrightarrow>
     \<exists>i mid. m = s @ mid @ e \<and> span_at s e text i mid \<and>
       (\<forall>j mid'. span_at s e text j mid' \<longrightarrow> i \<le> j \<and> (j = i \<longrightarrow> length mid' \<le> length mid))"
proof (induction "text")
  case Nil
  then have "match_here s e [] = Some m" by simp
  from match_here_Some [OF this] obtain mid where
    "m = s @ mid @ e" "span_at s e [] 0 mid"
    "\<forall>mid'. span_at s e [] 0 mid' \<longrightarrow> length mid' \<le> length mid" by blast
  then show ?case using span_at_Nil [of s e] by (intro exI [of _ 0] exI [of _ mid]) blast
next
  case (Cons c cs)
  show ?case
  proof (cases "match_here s e (c # cs)")
    case (Some m')
    with Cons.prems have "m' = m" by simp
    with Some match_here_Some [of s e "c # cs" m] obtain mid where
      "m = s @ mid @ e" "span_at s e (c # cs) 0 mid"
      "\<forall>mid'. span_at s e (c # cs) 0 mid' \<longrightarrow> length mid' \<le> length mid" by blast
    then show ?thesis by (intro exI [of _ 0] exI [of _ mid]) blast
  next
    case None
    with Cons.prems have "first_match s e cs = Some m" by simp
    from Cons.IH [OF this] obtain i mid where
      m: "m = s @ mid @ e" and sp: "span_at s e cs i mid"
      and mn: "\<forall>j mid'. span_at s e cs j mid' \<longrightarrow> i \<le> j \<and> (j = i \<longrightarrow> length mid' \<le> length mid)"
      by blast
    have "Suc i \<le> j \<and> (j = Suc i \<longrightarrow> length mid' \<le> length mid)"
      if "span_at s e (c # cs) j mid'" for j mid'
    proof (cases j)
      case 0
      with that match_here_None [OF None] show ?thesis by simp
    next
      case (Suc j')
      with that mn show ?thesis by (simp add: span_at_Cons)
    qed
    with m sp show ?thesis
      by (intro exI [of _ "Suc i"] exI [of _ mid]) (simp add: span_at_Cons)
  qed
qed

lemma decodeCandidate_framed:
  "decodeCandidate self (start_seq self @ mid @ end_seq self) = Inr mid"
  using slice_between [of "start_seq self" mid "end_seq self"]
  by (simp add: decodeCandidate_def Let_def suffix_def)

text \<open>
  Claim C6, amended. Let the markers have no metacharacter of regular expressions, and
  call span a place of the carrier where the start marker is followed, after any run of
  characters other than the line feed, by the end marker. \<open>decode\<close> fails with NotFound
  if and only if the carrier has no span, and it fails with no other error. Otherwise
  it returns the text between the markers of the span that starts at the leftmost
  position where a span starts and is the longest span starting there.
\<close>

theorem embedded_decode_scan:
  assumes "EmbeddedMessageTranslator_init s e = Inr self"
  shows "(decode (EmbeddedMessageTranslator self) text = Inl NotFound
            \<longleftrightarrow> (\<forall>i mid. \<not> span_at s e text i mid)) \<and>
         (\<forall>err. decode (EmbeddedMessageTranslator self) text = Inl err \<longrightarrow> err = NotFound) \<and>
         (\<forall>p. decode (EmbeddedMessageTranslator self) text = Inr p \<longrightarrow>
            (\<exists>i. span_at s e text i p \<and>
                 (\<forall>j mid. span_at s e text j mid \<longrightarrow>
                    i \<le> j \<and> (j = i \<longrightarrow> length mid \<le> length p))))"
proof -
  from assms have se: "start_seq self = s" "end_seq self = e"
    by (auto simp: EmbeddedMessageTranslator_init_def split: if_splits)
  show ?thesis
  proof (cases "first_match s e text")
    case None
    then have "decode (EmbeddedMessageTranslator self) text = Inl NotFound"
      by (simp add: EmbeddedMessageTranslator_def embedded_decode_def se)
    with first_match_None [OF None] show ?thesis by simp
  next
    case (Some m)
    from first_match_Some [OF Some] obtain i mid where
      m: "m = s @ mid @ e" and sp: "span_at s e text i mid"
      and mn: "\<forall>j mid'. span_at s e text j mid' \<longrightarrow> i \<le> j \<and> (j = i \<longrightarrow> length mid' \<le> length mid)"
      by blast
    have "decode (EmbeddedMessageTranslator self) text = Inr mid"
      using decodeCandidate_framed [of self mid]
      by (simp add: EmbeddedMessageTranslator_def embedded_decode_def se Some m)
    with sp mn show ?thesis by auto
  qed
qed

theorem embedded_decode_scan_witness:
  "EmbeddedMessageTranslator_init (lit ''<<'') (lit ''>>'') = Inr angle \<and>
   decode (EmbeddedMessageTranslator angle) (lit ''x<<a>>b>>c'') = Inr (lit ''a>>b'') \<and>
   (\<exists>i. span_at (lit ''<<'') (lit ''>>'') (lit ''x<<a>>b>>c'') i (lit ''a>>b'') \<and>
        (\<forall>j mid. span_at (lit ''<<'') (lit ''>>'') (lit ''x<<a>>b>>c'') j mid \<longrightarrow>
           i \<le> j \<and> (j = i \<longrightarrow> length mid \<le> length (lit ''a>>b''))))"
proof -
  have i: "EmbeddedMessageTranslator_init (lit ''<<'') (lit ''>>'') = Inr angle"
    by (simp add: EmbeddedMessageTranslator_init_def angle_def re_literal_def metachars_def lit_def)
  have d: "decode (EmbeddedMessageTranslator angle) (lit ''x<<a>>b>>c'') = Inr (lit ''a>>b'')"
    by (simp add: EmbeddedMessageTranslator_def embedded_decode_def angle_def match_here_def
        decodeCandidate_def dot_matches_def slice_def clamp_index_def lit_def suffix_def)
  from embedded_decode_scan [OF i, of "lit ''x<<a>>b>>c''"] d i show ?thesis
    by blast
qed

text \<open>
  Claim C6 as stated fails: the carrier below is the start marker, the two lines
  \<open>a\<close> and \<open>b\<close>, and the end marker, so it has a substring from the start marker to
  the end marker, and \<open>decode\<close> fails with NotFound: the \<open>.\<close> of the pattern does not
  match the line feed.
\<close>

theorem embedded_decode_scan_counterexample:
  "EmbeddedMessageTranslator_init (lit ''<<'') (lit ''>>'') = Inr angle \<and>
   decode (EmbeddedMessageTranslator angle) (start_seq angle @ (lit ''a'' @ [10] @ lit ''b'') @ end_seq angle)
     = Inl NotFound"
  by (simp add: EmbeddedMessageTranslator_init_def angle_def re_literal_def metachars_def
      EmbeddedMessageTranslator_def embedded_decode_def match_here_def
      decodeCandidate_def dot_matches_def lit_def)

section \<open>Joining and splitting\<close>

lemma split_scan_no_sep:
  "sep \<noteq> [] \<Longrightarrow> hd sep \<notin> set g \<Longrightarrow> split_scan sep cur g = [cur @ g]"
proof (induction g arbitrary: cur)
  case Nil
  then show ?case by simp
next
  case (Cons c g)
  from Cons.prems have "\<not> prefix sep (c # g)"
    by (cases sep) auto
  with Cons show ?case by simp
qed

lemma split_scan_at_sep:
  assumes "sep \<noteq> []"
  shows "split_scan sep cur (sep @ t) = cur # split_scan sep [] t"
proof -
  from assms obtain c cs where "sep @ t = c # cs" by (cases sep) auto
  moreover have "prefix sep (sep @ t)" by simp
  moreover have "drop (length sep) (sep @ t) = t" by simp
  ultimately show ?thesis
    using assms by (metis split_scan.simps(2))
qed

lemma split_scan_group:
  "sep \<noteq> [] \<Longrightarrow> hd sep \<notin> set g \<Longrightarrow>
   split_scan sep cur (g @ sep @ t) = (cur @ g) # split_scan sep [] t"
proof (induction g arbitrary: cur)
  case Nil
  then show ?case by (simp add: split_scan_at_sep)
next
  case (Cons c g)
  from Cons.prems have "\<not> prefix sep (c # g @ sep @ t)"
    by (cases sep) auto
  with Cons show ?case by simp
qed

lemma split_scan_join:
  "sep \<noteq> [] \<Longrightarrow> \<forall>g \<in> set (g0 # gs). hd sep \<notin> set g \<Longrightarrow>
   split_scan sep [] (join sep (g0 # gs)) = g0 # gs"
proof (induction gs arbitrary: g0)
  case Nil
  then show ?case by (simp add: split_scan_no_sep)
next
  case (Cons g1 gs)
  have "split_scan sep [] (join sep (g0 # g1 # gs))
        = g0 # split_scan sep [] (join sep (g1 # gs))"
    using Cons.prems by (simp add: split_scan_group)
  with Cons show ?case by simp
qed

lemma split_join:
  assumes "sep \<noteq> []" and "groups \<noteq> []" and "\<forall>g \<in> set groups. set g \<inter> set sep = {}"
  shows "split sep (join sep groups) = Inr groups"
proof -
  from assms(2) obtain g0 gs where g: "groups = g0 # gs" by (cases groups) auto
  have "hd sep \<in> set sep" using assms(1) by simp
  with assms(3) have "\<forall>g \<in> set (g0 # gs). hd sep \<notin> set g"
    unfolding g by blast
  from split_scan_join [OF assms(1) this] show ?thesis
    using assms(1) by (simp add: split_def g)
qed

lemma set_join: "set (join sep groups) \<subseteq> set sep \<union> \<Union> (set ` set groups)"
  by (induction sep groups rule: join.induct) auto

section \<open>Framing: decoding what was encoded\<close>

lemma first_match_here: "match_here s e t = Some m \<Longrightarrow> first_match s e t = Some m"
  by (cases t) simp_all

lemma embedded_decode_encode:
  assumes "10 \<notin> set p"
  shows "embedded_decode self (start_seq self @ p @ end_seq self) = Inr p"
proof -
  let ?s = "start_seq self" and ?e = "end_seq self"
  let ?t = "?s @ p @ ?e"
  have sp: "span_at ?s ?e ?t 0 p"
    using assms by (simp add: span_at_def)
  then obtain m where m: "match_here ?s ?e ?t = Some m"
    using match_here_None [of ?s ?e ?t p] by (cases "match_here ?s ?e ?t") auto
  from match_here_Some [OF m] obtain mid where
    mid: "m = ?s @ mid @ ?e" "span_at ?s ?e ?t 0 mid"
    and mx: "\<forall>mid'. span_at ?s ?e ?t 0 mid' \<longrightarrow> length mid' \<le> length mid"
    by blast
  from mx sp have 1: "length p \<le> length mid" by blast
  from mid(2) have pre: "prefix (mid @ ?e) (p @ ?e)"
    by (simp add: span_at_def)
  then have 2: "length mid \<le> length p"
    using prefix_length_le by fastforce
  from pre obtain r where "p @ ?e = (mid @ ?e) @ r" by (auto simp: prefix_def)
  with 1 2 have "mid = p" by (metis append_eq_append_conv le_antisym append.assoc)
  then show ?thesis
    using first_match_here [OF m] decodeCandidate_framed [of self p]
    by (simp add: embedded_decode_def mid(1))
qed

section \<open>The digit alphabet and the replacement dictionary\<close>

lemma extend_digits_all:
  "\<forall>i \<in> set is. i < 0x110000 \<Longrightarrow> extend_digits ds is = Inr (ds @ is)"
  by (induction "is" arbitrary: ds) (simp_all add: chr_def)

lemma length_base62: "length ascii_digits = 10" "length ascii_letters = 52"
  by (simp_all add: ascii_digits_def ascii_letters_def lit_def)

lemma canonical_digits_small:
  assumes "length cs \<le> 65"
  shows "canonical_digits cs = Inr (digits_for cs)"
proof -
  have "\<forall>i \<in> set [62 ..< length cs]. i < 0x110000" using assms by auto
  from extend_digits_all [OF this] show ?thesis
    by (simp add: canonical_digits_def Let_def length_base62 digits_for_def)
qed

lemma base62_set:
  "x \<in> set (ascii_digits @ ascii_letters) \<Longrightarrow> x \<noteq> 45 \<and> x \<noteq> 10 \<and> \<not> (62 \<le> x \<and> x < 65)"
  by (auto simp: ascii_digits_def ascii_letters_def lit_def)

lemma distinct_base62: "distinct (ascii_digits @ ascii_letters)"
  by (simp add: ascii_digits_def ascii_letters_def lit_def)

lemma digits_for_facts:
  assumes "length cs \<le> 65"
  shows "distinct (digits_for cs)" and "length cs \<le> length (digits_for cs)"
    and "45 \<notin> set (digits_for cs)" and "digits_for cs ! 0 = 48"
proof -
  have d: "digits_for cs = (ascii_digits @ ascii_letters) @ [62 ..< length cs]"
    by (simp add: digits_for_def)
  have "set (ascii_digits @ ascii_letters) \<inter> set [62 ..< length cs] = {}"
    using assms base62_set by fastforce
  then show "distinct (digits_for cs)"
    unfolding d using distinct_base62 by (simp only: distinct_append) simp
  show "length cs \<le> length (digits_for cs)"
    unfolding d by (simp add: length_base62)
  show "45 \<notin> set (digits_for cs)"
    unfolding d using base62_set [of 45] by auto
  show "digits_for cs ! 0 = 48"
    by (simp add: digits_for_def ascii_digits_def lit_def)
qed

lemma pair_items_all:
  "\<forall>i \<in> set is. i < length ds \<and> i < length cs \<Longrightarrow>
   pair_items ds cs is = Inr (map (\<lambda>i. ([ds ! i], [cs ! i])) is)"
  by (induction "is") (simp_all add: str_getitem_def getitem_def)

lemma dict_set_fresh: "k \<notin> fst ` set d \<Longrightarrow> dict_set d k v = d @ [(k, v)]"
  by (induction d) auto

lemma foldl_dict_set:
  "distinct (map fst (acc @ kvs)) \<Longrightarrow>
   foldl (\<lambda>d (k, v). dict_set d k v) acc kvs = acc @ kvs"
proof (induction kvs arbitrary: acc)
  case Nil
  then show ?case by simp
next
  case (Cons kv kvs)
  obtain k v where kv: "kv = (k, v)" by (cases kv)
  from Cons.prems have "k \<notin> fst ` set acc" by (auto simp: kv)
  then have "dict_set acc k v = acc @ [(k, v)]" by (rule dict_set_fresh)
  moreover from Cons.prems have "distinct (map fst ((acc @ [(k, v)]) @ kvs))" by (simp add: kv)
  ultimately show ?case
    using Cons.IH [of "acc @ [(k, v)]"] by (simp add: kv)
qed

lemma dict_of_items_distinct: "distinct (map fst kvs) \<Longrightarrow> dict_of_items kvs = kvs"
  using foldl_dict_set [of "[]" kvs] by (simp add: dict_of_items_def)

lemma distinct_singletons:
  "distinct xs \<Longrightarrow> n \<le> length xs \<Longrightarrow> distinct (map (\<lambda>i. [xs ! i]) [0 ..< n])"
  by (auto simp: distinct_map inj_on_def nth_eq_iff_index_eq)

lemma pairs_for_keys:
  "distinct ds \<Longrightarrow> length cs \<le> length ds \<Longrightarrow> distinct (map fst (pairs_for ds cs))"
  using distinct_singletons [of ds "length cs"] by (simp add: pairs_for_def comp_def)

lemma pairs_for_values:
  "distinct cs \<Longrightarrow> distinct (map fst (map (\<lambda>(k, v). (v, k)) (pairs_for ds cs)))"
  using distinct_singletons [of cs "length cs"] by (simp add: pairs_for_def comp_def)

lemma make_replacement_small:
  assumes "distinct ds" and "length cs \<le> length ds"
  shows "make_replacement ds cs = Inr (pairs_for ds cs)"
proof -
  have "pair_items ds cs [0 ..< length cs] = Inr (pairs_for ds cs)"
    unfolding pairs_for_def using assms(2) by (intro pair_items_all) auto
  then show ?thesis
    by (simp add: make_replacement_def dict_of_items_distinct [OF pairs_for_keys [OF assms]])
qed

lemma replacement_forward:
  assumes "distinct ds" and "length cs \<le> length ds" and "d < length cs"
  shows "dict_get (pairs_for ds cs) [ds ! d] = Inr [cs ! d]"
proof -
  have "([ds ! d], [cs ! d]) \<in> set (pairs_for ds cs)"
    using assms(3) by (auto simp: pairs_for_def)
  with pairs_for_keys [OF assms(1,2)] have "map_of (pairs_for ds cs) [ds ! d] = Some [cs ! d]"
    by (rule map_of_is_SomeI)
  then show ?thesis by (simp add: dict_get_def)
qed

lemma replacement_backward:
  assumes "distinct cs" and "d < length cs"
  shows "dict_get (charset_inv (StringReplacementTranslator_init (pairs_for ds cs))) [cs ! d]
         = Inr [ds ! d]"
proof -
  let ?inv = "map (\<lambda>(k, v). (v, k)) (pairs_for ds cs)"
  have dv: "distinct (map fst ?inv)" by (rule pairs_for_values [OF assms(1)])
  have "([cs ! d], [ds ! d]) \<in> set ?inv"
    using assms(2) by (auto simp: pairs_for_def)
  with dv have "map_of ?inv [cs ! d] = Some [ds ! d]"
    by (rule map_of_is_SomeI)
  then show ?thesis
    by (simp add: dict_get_def StringReplacementTranslator_init_def dict_of_items_distinct [OF dv])
qed

section \<open>The round trip of one character\<close>

lemma genexp_map_all:
  "\<forall>d \<in> set dl. f (h d) = Inr (k d) \<Longrightarrow> genexp f (map h dl) e = (map k dl, e)"
  by (induction dl) simp_all

lemma join_Nil: "join [] xs = concat xs"
  by (induction "[] :: 'a list" xs rule: join.induct) simp_all

lemma replace_digits:
  assumes "distinct ds" and "length cs \<le> length ds" and "\<forall>d \<in> set dl. d < length cs"
  shows "str_join [] (genexp (dict_get (pairs_for ds cs))
            (map (\<lambda>x. [x]) (map (\<lambda>d. ds ! d) dl)) None)
         = Inr (map (\<lambda>d. cs ! d) dl)"
proof -
  have "genexp (dict_get (pairs_for ds cs)) (map (\<lambda>d. [ds ! d]) dl) None
        = (map (\<lambda>d. [cs ! d]) dl, None)"
    using assms(3) replacement_forward [OF assms(1,2)] by (intro genexp_map_all) simp
  then show ?thesis
    by (simp add: str_join_def join_Nil comp_def concat_map_singleton)
qed

lemma restore_digits:
  assumes "distinct cs" and "\<forall>d \<in> set dl. d < length cs"
  shows "str_join [] (genexp (dict_get (charset_inv (StringReplacementTranslator_init (pairs_for ds cs))))
            (map (\<lambda>x. [x]) (map (\<lambda>d. cs ! d) dl)) None)
         = Inr (map (\<lambda>d. ds ! d) dl)"
proof -
  have "genexp (dict_get (charset_inv (StringReplacementTranslator_init (pairs_for ds cs))))
          (map (\<lambda>d. [cs ! d]) dl) None
        = (map (\<lambda>d. [ds ! d]) dl, None)"
    using assms(2) replacement_backward [OF assms(1)] by (intro genexp_map_all) simp
  then show ?thesis
    by (simp add: str_join_def join_Nil comp_def concat_map_singleton)
qed

lemma msd_facts:
  assumes "2 \<le> b"
  shows "msd b x \<noteq> []" and "\<forall>d \<in> set (msd b x). d < b"
    and "lsd_value b (rev (msd b x)) = x"
  using assms lsd_nonempty [of b x] lsd_bound [of b _ x] lsd_value_lsd [of b x]
  by (auto simp: msd_def)

lemma base_n_encode_msd:
  assumes "2 \<le> length cs" and "length cs \<le> 65"
  shows "base_n_encode \<lparr> base = int (length cs), digits = digits_for cs, padding = 0 \<rparr> (int x)
         = Inr (map (\<lambda>d. digits_for cs ! d) (msd (length cs) x))"
proof (cases "x = 0")
  case True
  then show ?thesis
    using digits_for_facts(4) [OF assms(2)] by (simp add: base_n_encode_def msd_def lit_def)
next
  case False
  let ?bn = "\<lparr> base = int (length cs), digits = digits_for cs, padding = 0 \<rparr>"
  have "base_n_encode ?bn (int x)
        = Inr (map (\<lambda>d. digits ?bn ! d)
                 (rev (lsd (nat (base ?bn)) x
                       @ replicate (nat (padding ?bn - int (length (lsd (nat (base ?bn)) x)))) 0)))"
    using assms False digits_for_facts(2) [OF assms(2)]
    by (intro base_n_encode_positive) simp_all
  then show ?thesis using False by (simp add: msd_def)
qed

lemma base_n_decode_msd:
  assumes "2 \<le> length cs" and "length cs \<le> 65"
  shows "base_n_decode \<lparr> base = int (length cs), digits = digits_for cs, padding = 0 \<rparr>
           (map (\<lambda>d. digits_for cs ! d) (msd (length cs) x))
         = Inr (int x)"
proof -
  let ?bn = "\<lparr> base = int (length cs), digits = digits_for cs, padding = 0 \<rparr>"
  let ?dl = "rev (msd (length cs) x)"
  have "base_n_decode ?bn (map (\<lambda>d. digits ?bn ! d) (rev ?dl))
        = Inr (int (lsd_value (nat (base ?bn)) ?dl))"
  proof (rule base_n_decode_digits)
    show "2 \<le> base ?bn" using assms(1) by simp
    show "distinct (digits ?bn)" using digits_for_facts(1) [OF assms(2)] by simp
    show "set (lit ''-'') \<inter> set (digits ?bn) = {}"
      using digits_for_facts(3) [OF assms(2)] by (simp add: lit_def)
    show "?dl \<noteq> []" using msd_facts(1) [OF assms(1)] by simp
    show "\<forall>d \<in> set ?dl. d < length (digits ?bn)"
      using msd_facts(2) [OF assms(1), of x] digits_for_facts(2) [OF assms(2)] by auto
  qed
  then show ?thesis
    using msd_facts(3) [OF assms(1), of x] by simp
qed

lemma encode_item_char:
  assumes "distinct cs" and "2 \<le> length cs" and "length cs \<le> 65"
  shows "encode_item \<lparr> base = int (length cs), digits = digits_for cs, padding = 0 \<rparr>
           (pairs_for (digits_for cs) cs) [x]
         = Inr (map (\<lambda>d. cs ! d) (msd (length cs) x))"
proof -
  have "str_join [] (genexp (dict_get (pairs_for (digits_for cs) cs))
            (map (\<lambda>x. [x]) (map (\<lambda>d. digits_for cs ! d) (msd (length cs) x))) None)
         = Inr (map (\<lambda>d. cs ! d) (msd (length cs) x))"
    using digits_for_facts(1,2) [OF assms(3)] msd_facts(2) [OF assms(2), of x]
    by (intro replace_digits) simp_all
  then show ?thesis
    by (simp add: encode_item_def UnicodeCharacterTranslator_def ord_def
        base_n_encode_msd [OF assms(2,3)])
qed

lemma decode_item_group:
  assumes "distinct cs" and "2 \<le> length cs" and "length cs \<le> 65" and "x \<le> 255"
  shows "decode_item \<lparr> base = int (length cs), digits = digits_for cs, padding = 0 \<rparr>
           (pairs_for (digits_for cs) cs) (map (\<lambda>d. cs ! d) (msd (length cs) x))
         = Inr [x]"
proof -
  have "str_join [] (genexp (dict_get (charset_inv
              (StringReplacementTranslator_init (pairs_for (digits_for cs) cs))))
            (map (\<lambda>x. [x]) (map (\<lambda>d. cs ! d) (msd (length cs) x))) None)
         = Inr (map (\<lambda>d. digits_for cs ! d) (msd (length cs) x))"
    using msd_facts(2) [OF assms(2), of x] by (intro restore_digits [OF assms(1)]) simp
  then show ?thesis
    using assms(4)
    by (simp add: decode_item_def base_n_decode_msd [OF assms(2,3)]
        UnicodeCharacterTranslator_def chr_def)
qed

lemma group_symbols:
  assumes "2 \<le> length cs"
  shows "set (map (\<lambda>d. cs ! d) (msd (length cs) x)) \<subseteq> set cs"
  using msd_facts(2) [OF assms, of x] by auto

section \<open>The round trip of the charset pipeline\<close>

lemma build_small:
  assumes "distinct (cb_charset self)" and "2 \<le> length (cb_charset self)"
    and "length (cb_charset self) \<le> 65"
    and "re_literal (cb_start_seq self)" and "re_literal (cb_end_seq self)"
  shows "CharsetTranslatorBuilder_build self
     = Inr (pipeline \<lparr> base = int (length (cb_charset self)),
                        digits = digits_for (cb_charset self), padding = 0 \<rparr>
              (pairs_for (digits_for (cb_charset self)) (cb_charset self))
              (cb_separator self)
              \<lparr> start_seq = cb_start_seq self, end_seq = cb_end_seq self \<rparr>)"
  using assms digits_for_facts(1,2) [OF assms(3)]
  by (simp add: CharsetTranslatorBuilder_build_def canonical_digits_small make_replacement_small
      Base10ToBaseNTranslator_init_def EmbeddedMessageTranslator_init_def)

lemma pipeline_round_trip:
  assumes "distinct cs" and "2 \<le> length cs" and "length cs \<le> 65"
    and "sep \<noteq> []" and "set sep \<inter> set cs = {}" and "10 \<notin> set cs \<union> set sep"
    and "message \<noteq> []" and "\<forall>c \<in> set message. c \<le> 255"
  shows "\<exists>t. encode (pipeline \<lparr> base = int (length cs), digits = digits_for cs, padding = 0 \<rparr>
                  (pairs_for (digits_for cs) cs) sep emb) message = Inr t \<and>
             decode (pipeline \<lparr> base = int (length cs), digits = digits_for cs, padding = 0 \<rparr>
                  (pairs_for (digits_for cs) cs) sep emb) t = Inr (iter_str message)"
proof -
  let ?bn = "\<lparr> base = int (length cs), digits = digits_for cs, padding = 0 \<rparr>"
  let ?repl = "pairs_for (digits_for cs) cs"
  let ?grp = "\<lambda>x. map (\<lambda>d. cs ! d) (msd (length cs) x)"
  let ?groups = "map ?grp message"
  let ?payload = "join sep ?groups"
  have enc: "genexp (encode_item ?bn ?repl) (map (\<lambda>x. [x]) message) None = (?groups, None)"
    using encode_item_char [OF assms(1,2,3)] by (intro genexp_map_all) simp
  have e: "encode (pipeline ?bn ?repl sep emb) message
           = Inr (start_seq emb @ ?payload @ end_seq emb)"
    by (simp add: encode_pipeline enc str_join_def embedded_encode_def)
  have sub: "set g \<subseteq> set cs" if "g \<in> set ?groups" for g
  proof -
    from that obtain x where "g = ?grp x" by auto
    then show ?thesis using group_symbols [OF assms(2), of x] by (simp only:)
  qed
  have "set ?payload \<subseteq> set sep \<union> \<Union> (set ` set ?groups)"
    by (rule set_join)
  with sub assms(6) have nl: "10 \<notin> set ?payload" by blast
  have d1: "embedded_decode emb (start_seq emb @ ?payload @ end_seq emb) = Inr ?payload"
    by (rule embedded_decode_encode [OF nl])
  have "\<forall>g \<in> set ?groups. set g \<inter> set sep = {}"
    using sub assms(5) by blast
  moreover have "?groups \<noteq> []" using assms(7) by simp
  ultimately have d2: "split sep ?payload = Inr ?groups"
    by (intro split_join [OF assms(4)])
  have d3: "genexp (decode_item ?bn ?repl) ?groups None = (map (\<lambda>x. [x]) message, None)"
    using decode_item_group [OF assms(1,2,3)] assms(8) by (intro genexp_map_all) simp
  have "decode (pipeline ?bn ?repl sep emb) (start_seq emb @ ?payload @ end_seq emb)
        = Inr (iter_str message)"
    by (simp add: decode_pipeline d1 d2 d3 iter_str_def)
  with e show ?thesis by blast
qed

text \<open>
  Claim C1, amended. Let the target alphabet have between 2 and 65 symbols, all
  different, the separator be non-empty and share no symbol with the target alphabet,
  neither of them contain the line feed, and the markers have no metacharacter of
  regular expressions. Then for every non-empty message whose characters have code
  points up to 255, \<open>decode(encode(message))\<close> is a generator that yields the characters
  of the message, in order, and raises nothing.
\<close>

theorem charset_round_trip:
  assumes "distinct (cb_charset self)" and "2 \<le> length (cb_charset self)"
    and "length (cb_charset self) \<le> 65"
    and "cb_separator self \<noteq> []" and "set (cb_separator self) \<inter> set (cb_charset self) = {}"
    and "10 \<notin> set (cb_charset self) \<union> set (cb_separator self)"
    and "re_literal (cb_start_seq self)" and "re_literal (cb_end_seq self)"
    and "message \<noteq> []" and "\<forall>c \<in> set message. c \<le> 255"
  shows "run_decode_encode self message = Inr (iter_str message)"
proof -
  from pipeline_round_trip [OF assms(1,2,3,4,5,6,9,10)] obtain t where
    "encode (pipeline \<lparr> base = int (length (cb_charset self)),
                        digits = digits_for (cb_charset self), padding = 0 \<rparr>
              (pairs_for (digits_for (cb_charset self)) (cb_charset self))
              (cb_separator self)
              \<lparr> start_seq = cb_start_seq self, end_seq = cb_end_seq self \<rparr>) message = Inr t"
    "decode (pipeline \<lparr> base = int (length (cb_charset self)),
                        digits = digits_for (cb_charset self), padding = 0 \<rparr>
              (pairs_for (digits_for (cb_charset self)) (cb_charset self))
              (cb_separator self)
              \<lparr> start_seq = cb_start_seq self, end_seq = cb_end_seq self \<rparr>) t
       = Inr (iter_str message)"
    by blast
  then show ?thesis
    by (simp add: run_decode_encode_def build_small [OF assms(1,2,3,7,8)])
qed

theorem charset_round_trip_witness:
  "run_decode_encode demo_builder (lit ''ab'') = Inr ([lit ''a'', lit ''b''], None)"
proof -
  have "run_decode_encode demo_builder (lit ''ab'') = Inr (iter_str (lit ''ab''))"
    by (rule charset_round_trip)
       (simp_all add: demo_builder_def lit_def re_literal_def metachars_def)
  then show ?thesis by (simp add: iter_str_def lit_def)
qed

text \<open>
  Claim C1 as stated fails. With the target alphabet \<open>AB\<close>, the separator \<open>-\<close> and the
  markers \<open><<\<close> and \<open>>>\<close>, the message of the one character with code point 256 is
  encoded, and the generator that \<open>decode\<close> returns for the result raises the
  OutOfRange error of \<open>UnicodeCharacterTranslator.decode\<close> (line 52) and yields nothing.
  The empty message is encoded as \<open><<>>\<close>, and decoding it raises \<open>IndexError\<close>.
\<close>

theorem charset_round_trip_counterexample:
  "distinct (cb_charset demo_builder) \<and>
   run_decode_encode demo_builder [256] = Inr ([], Some (OutOfRange 256)) \<and>
   run_decode_encode demo_builder [] = Inr ([], Some IndexError)"
proof -
  have 1: "distinct (cb_charset demo_builder)"
    by (simp add: demo_builder_def lit_def)
  have 2: "run_decode_encode demo_builder [256] = Inr ([], Some (OutOfRange 256))"
    by code_simp
  have 3: "run_decode_encode demo_builder [] = Inr ([], Some IndexError)"
    by code_simp
  from 1 2 3 show ?thesis by blast
qed

end
